theory Spec2Isabelle
  imports Main "HOL-Library.Multiset"
begin

section \<open>Data model\<close>

text \<open>
  The orchestration engine of \<^verbatim>\<open>main.go\<close>: roles that wrap capabilities, a
  per-role append-only message log and a coordinator that seeds, dispatches and
  redistributes results.

  \<^verbatim>\<open>type Message struct { Content string; Role string; CauseBy string }\<close>
\<close>

record Message =
  Content :: string
  Role :: string
  CauseBy :: string

text \<open>The zero value \<^verbatim>\<open>Message{}\<close> that \<^verbatim>\<open>Act\<close> returns beside an error.\<close>

definition Message_zero :: Message where
  "Message_zero = \<lparr>Content = '''', Role = '''', CauseBy = ''''\<rparr>"

text \<open>
  \<^verbatim>\<open>type Memory struct { mu sync.Mutex; history []Message }\<close>.
  The mutex has no value of its own in the model: \<^verbatim>\<open>Add\<close> and
  \<^verbatim>\<open>GetRecent\<close> hold it for their whole body, so each of them is one atomic
  step of the interleaving semantics below.
\<close>

record Memory =
  history :: "Message list"

text \<open>
  Go errors. \<^verbatim>\<open>errors.New(text)\<close> builds an \<^verbatim>\<open>errorString\<close>;
  \<^verbatim>\<open>fmt.Errorf\<close> with a \<^verbatim>\<open>%w\<close> verb builds a \<^verbatim>\<open>wrapError\<close>
  holding the formatted text and the wrapped error. An error of a foreign library is
  represented by its text.
\<close>

datatype error = errorString string | wrapError string error

fun Error :: "error \<Rightarrow> string" where
  "Error (errorString s) = s"
| "Error (wrapError msg err) = msg"

fun Unwrap :: "error \<Rightarrow> error option" where
  "Unwrap (errorString s) = None"
| "Unwrap (wrapError msg err) = Some err"

definition errors_New :: "string \<Rightarrow> error" where
  "errors_New text = errorString text"

text \<open>\<^verbatim>\<open>fmt.Errorf("%s action failed: %w", name, err)\<close>\<close>

definition Errorf_action_failed :: "string \<Rightarrow> error \<Rightarrow> error" where
  "Errorf_action_failed name err = wrapError (name @ '' action failed: '' @ Error err) err"

text \<open>\<^verbatim>\<open>fmt.Errorf("Azure OpenAI API error: %w", err)\<close>\<close>

definition Errorf_api_error :: "error \<Rightarrow> error" where
  "Errorf_api_error err = wrapError (''Azure OpenAI API error: '' @ Error err) err"

text \<open>
  \<^verbatim>\<open>type Action interface { Run(ctx, input string) (string, error); Name() string }\<close>.
  A capability is the pair of its two methods. \<^verbatim>\<open>Run\<close> is an external call: the
  model takes its outcome as a function of the input text, \<open>Inl\<close> the error. Each role
  invokes a capability at most once in a run, so this fixes nothing about how outcomes
  of different calls relate.
\<close>

datatype Action = Action (Name: string) (Run: "string \<Rightarrow> error + string")

text \<open>
  \<^verbatim>\<open>type Role struct { Name, Profile string; Actions []Action; WatchList []string; Memory *Memory }\<close>.
  \<open>Memory\<close> is a pointer: the model keeps it as an address into a heap of Memory
  objects, so two roles may share one log, as the Go types allow. All pointers are
  taken to be non-nil.
\<close>

record Role =
  Name :: string
  Profile :: string
  Actions :: "Action list"
  WatchList :: "string list"
  Memory :: nat

type_synonym heap = "nat \<Rightarrow> Memory"

text \<open>\<^verbatim>\<open>type Team struct { Roles []*Role; ProjectIdea string }\<close>\<close>

record Team =
  Roles :: "Role list"
  ProjectIdea :: string

section \<open>Memory (lines 25-39)\<close>

definition Add :: "Memory \<Rightarrow> Message \<Rightarrow> Memory" where
  "Add m msg = m\<lparr>history := history m @ [msg]\<rparr>"

definition GetRecent :: "Memory \<Rightarrow> Message list" where
  "GetRecent m =
     (if length (history m) = 0 then []
      else drop (length (history m) - 1) (history m))"

text \<open>\<^verbatim>\<open>role.Memory.Add(msg)\<close> through the pointer.\<close>

definition Add_at :: "heap \<Rightarrow> nat \<Rightarrow> Message \<Rightarrow> heap" where
  "Add_at h p msg = h(p := Add (h p) msg)"

section \<open>Capabilities (lines 48-158)\<close>

text \<open>
  \<open>parseCode\<close> calls Go's \<^verbatim>\<open>regexp\<close> and \<^verbatim>\<open>strings\<close> packages, which are
  not part of the repository. They are parameters of the model:
  \<open>FindStringSubmatch pattern s\<close> stands for
  \<^verbatim>\<open>regexp.MustCompile(pattern).FindStringSubmatch(s)\<close> and \<open>TrimSpace\<close> for
  \<^verbatim>\<open>strings.TrimSpace\<close>. Both patterns of the source are the empty string.
\<close>

definition parseCode :: "(string \<Rightarrow> string \<Rightarrow> string list) \<Rightarrow> (string \<Rightarrow> string) \<Rightarrow> string \<Rightarrow> string" where
  "parseCode FindStringSubmatch TrimSpace rsp =
     (let matches = FindStringSubmatch '''' rsp in
      if length matches > 1 then TrimSpace (matches ! 1)
      else
        let matches = FindStringSubmatch '''' rsp in
        if length matches > 1 then TrimSpace (matches ! 1)
        else rsp)"

text \<open>
  What Go's \<^verbatim>\<open>regexp\<close> package documents for the empty pattern: it has no capture
  group and matches the empty string at the start of every input, so the result is the
  one-element slice holding the empty match. No other pattern is needed.
\<close>

definition FindStringSubmatch_go :: "string \<Rightarrow> string \<Rightarrow> string list" where
  "FindStringSubmatch_go pattern s = (if pattern = '''' then [''''] else [])"

text \<open>
  The language-model client: \<open>llm prompt\<close> stands for
  \<^verbatim>\<open>CreateChatCompletion\<close> on a request with the single user message \<open>prompt\<close>;
  it fails or returns the contents of the response's choices.
\<close>

type_synonym llmClient = "string \<Rightarrow> error + string list"

text \<open>The three prompts, each a \<^verbatim>\<open>fmt.Sprintf\<close> of the source.\<close>

definition SimpleWriteCode_prompt :: "string \<Rightarrow> string" where
  "SimpleWriteCode_prompt instruction =
     ''Write a python function that can '' @ instruction @
     ''.\<newline>Return ```python\<newline>your_code_here``` with NO other texts.''"

definition SimpleWriteTest_prompt :: "string \<Rightarrow> string" where
  "SimpleWriteTest_prompt contextData =
     ''Context: '' @ contextData @
     ''\<newline>Write 3 unit tests using pytest for the given function, assuming you have imported it.\<newline>Return ```python\<newline>your_code_here``` with NO other texts.''"

definition SimpleWriteReview_prompt :: "string \<Rightarrow> string" where
  "SimpleWriteReview_prompt contextData =
     ''Context: '' @ contextData @
     ''\<newline>Review the test cases and provide one critical comment:''"

definition SimpleWriteCode_Run ::
  "(string \<Rightarrow> string \<Rightarrow> string list) \<Rightarrow> (string \<Rightarrow> string) \<Rightarrow> llmClient \<Rightarrow> string \<Rightarrow> error + string" where
  "SimpleWriteCode_Run FindStringSubmatch TrimSpace llm instruction =
     (case llm (SimpleWriteCode_prompt instruction) of
        Inl err \<Rightarrow> Inl (Errorf_api_error err)
      | Inr choices \<Rightarrow>
          (case choices of
             [] \<Rightarrow> Inl (errors_New ''no response from Azure OpenAI'')
           | c # cs \<Rightarrow>
               if c = '''' then Inl (errors_New ''no response from Azure OpenAI'')
               else Inr (parseCode FindStringSubmatch TrimSpace c)))"

definition SimpleWriteTest_Run ::
  "(string \<Rightarrow> string \<Rightarrow> string list) \<Rightarrow> (string \<Rightarrow> string) \<Rightarrow> llmClient \<Rightarrow> string \<Rightarrow> error + string" where
  "SimpleWriteTest_Run FindStringSubmatch TrimSpace llm contextData =
     (case llm (SimpleWriteTest_prompt contextData) of
        Inl err \<Rightarrow> Inl (Errorf_api_error err)
      | Inr choices \<Rightarrow>
          (case choices of
             [] \<Rightarrow> Inl (errors_New ''no response from Azure OpenAI'')
           | c # cs \<Rightarrow>
               if c = '''' then Inl (errors_New ''no response from Azure OpenAI'')
               else Inr (parseCode FindStringSubmatch TrimSpace c)))"

definition SimpleWriteReview_Run :: "llmClient \<Rightarrow> string \<Rightarrow> error + string" where
  "SimpleWriteReview_Run llm contextData =
     (case llm (SimpleWriteReview_prompt contextData) of
        Inl err \<Rightarrow> Inl (Errorf_api_error err)
      | Inr choices \<Rightarrow>
          (case choices of
             [] \<Rightarrow> Inl (errors_New ''no response from Azure OpenAI'')
           | c # cs \<Rightarrow>
               if c = '''' then Inl (errors_New ''no response from Azure OpenAI'')
               else Inr c))"

definition SimpleWriteCode ::
  "(string \<Rightarrow> string \<Rightarrow> string list) \<Rightarrow> (string \<Rightarrow> string) \<Rightarrow> llmClient \<Rightarrow> Action" where
  "SimpleWriteCode FindStringSubmatch TrimSpace llm =
     Action ''SimpleWriteCode'' (SimpleWriteCode_Run FindStringSubmatch TrimSpace llm)"

definition SimpleWriteTest ::
  "(string \<Rightarrow> string \<Rightarrow> string list) \<Rightarrow> (string \<Rightarrow> string) \<Rightarrow> llmClient \<Rightarrow> Action" where
  "SimpleWriteTest FindStringSubmatch TrimSpace llm =
     Action ''SimpleWriteTest'' (SimpleWriteTest_Run FindStringSubmatch TrimSpace llm)"

definition SimpleWriteReview :: "llmClient \<Rightarrow> Action" where
  "SimpleWriteReview llm = Action ''SimpleWriteReview'' (SimpleWriteReview_Run llm)"

section \<open>Role.Act (lines 169-192)\<close>

text \<open>\<^verbatim>\<open>fmt.Sprintf("[%s]: %s\n", msg.Role, msg.Content)\<close>\<close>

definition Sprintf_context :: "Message \<Rightarrow> string" where
  "Sprintf_context msg = ''['' @ Role msg @ '']: '' @ Content msg @ ''\<newline>''"

text \<open>The first loop of \<^verbatim>\<open>Act\<close>: \<^verbatim>\<open>contextData += ...\<close> over the given messages.\<close>

definition contextData_of :: "Message list \<Rightarrow> string" where
  "contextData_of msgs = foldl (\<lambda>contextData msg. contextData @ Sprintf_context msg) '''' msgs"

text \<open>
  The second loop of \<^verbatim>\<open>Act\<close>, over \<^verbatim>\<open>r.Actions\<close>. Every path through its
  body returns, so there is no recursive call. The result is the returned pair
  \<^verbatim>\<open>(Message, error)\<close> (\<open>None\<close> for \<^verbatim>\<open>nil\<close>), the heap, and the
  capability invocations made, each as the capability's name and its input.
\<close>

fun Act_loop ::
  "Role \<Rightarrow> string \<Rightarrow> Action list \<Rightarrow> heap \<Rightarrow> Message \<times> error option \<times> heap \<times> (string \<times> string) list" where
  "Act_loop r contextData [] h =
     (Message_zero, Some (errors_New ''no suitable action found''), h, [])"
| "Act_loop r contextData (action # rest) h =
     (case Run action contextData of
        Inl err \<Rightarrow>
          (Message_zero, Some (Errorf_action_failed (Action.Name action) err), h,
           [(Action.Name action, contextData)])
      | Inr output \<Rightarrow>
          (let msg = \<lparr>Content = output, Role = Profile r, CauseBy = Action.Name action\<rparr>
           in (msg, None, Add_at h (Memory r) msg, [(Action.Name action, contextData)])))"

definition Act :: "Role \<Rightarrow> heap \<Rightarrow> Message \<times> error option \<times> heap \<times> (string \<times> string) list" where
  "Act r h = Act_loop r (contextData_of (GetRecent (h (Memory r)))) (Actions r) h"

section \<open>Team.RunProject (lines 200-243)\<close>

subsection \<open>The sequential loops\<close>

definition userReq :: "Team \<Rightarrow> Message" where
  "userReq t = \<lparr>Content = ProjectIdea t, Role = ''User'', CauseBy = ''UserRequirement''\<rparr>"

text \<open>The seeding loop (lines 207-209). It runs before any goroutine exists.\<close>

fun seed :: "Message \<Rightarrow> Role list \<Rightarrow> heap \<Rightarrow> heap" where
  "seed msg [] h = h"
| "seed msg (role # roles) h = seed msg roles (Add_at h (Memory role) msg)"

text \<open>
  The delivery loops for one received message (lines 235-241): the inner loop over the
  watch list of one role, the outer loop over the roles.
\<close>

fun deliver_watch :: "Message \<Rightarrow> Role \<Rightarrow> string list \<Rightarrow> heap \<Rightarrow> heap" where
  "deliver_watch msg role [] h = h"
| "deliver_watch msg role (watchType # ws) h =
     deliver_watch msg role ws
       (if watchType = CauseBy msg then Add_at h (Memory role) msg else h)"

fun deliver :: "Message \<Rightarrow> Role list \<Rightarrow> heap \<Rightarrow> heap" where
  "deliver msg [] h = h"
| "deliver msg (role # roles) h =
     deliver msg roles (deliver_watch msg role (WatchList role) h)"

subsection \<open>The goroutines as an interleaving semantics\<close>

text \<open>
  \<open>RunProject\<close> starts one goroutine per role and one that closes the channel, and
  itself ranges over the channel. The model gives every goroutine a program counter and
  lets a schedule (a list of thread names) pick which goroutine takes its next atomic
  step. A step is one access to shared state (a Memory operation under its mutex, a
  channel or WaitGroup operation, a \<open>Printf\<close>, the external capability call) or one
  move of local control flow.

  The program counter of the goroutine of one role (lines 216-224):
  \<^item> \<open>T_unspawned\<close>: the \<^verbatim>\<open>go\<close> statement has not run yet;
  \<^item> \<open>T_spawned\<close>: started, about to call \<^verbatim>\<open>r.Act\<close>;
  \<^item> \<open>T_context c\<close>: inside \<open>Act\<close>, context string \<open>c\<close> built from \<open>GetRecent\<close>;
  \<^item> \<open>T_ran msg\<close>: inside \<open>Act\<close>, the capability has returned its output and \<open>msg\<close>
    is built, \<^verbatim>\<open>r.Memory.Add(msg)\<close> comes next;
  \<^item> \<open>T_acted msg err\<close>: \<open>Act\<close> has returned \<open>(msg, err)\<close>;
  \<^item> \<open>T_deferred msg err\<close>: the error is printed or the message is sent, the deferred
    \<^verbatim>\<open>wg.Done()\<close> comes next;
  \<^item> \<open>T_finished msg err\<close>: the goroutine has ended, having got \<open>(msg, err)\<close> from \<open>Act\<close>.
\<close>

datatype task =
    T_unspawned
  | T_spawned
  | T_context string
  | T_ran Message
  | T_acted Message "error option"
  | T_deferred Message "error option"
  | T_finished Message "error option"

text \<open>
  The program counter of \<open>RunProject\<close> itself after seeding: in the dispatch loop with
  \<open>i\<close> roles dispatched (line 214), blocked at the \<^verbatim>\<open>range results\<close> (line 232),
  holding a received message before its \<open>Printf\<close> (line 233), at the head of the loop
  over the remaining roles (line 235), inside the loop over the remaining watch list
  entries of a role (line 236), or returned.
\<close>

datatype main_pc =
    M_dispatch nat
  | M_range
  | M_received Message
  | M_outer Message "Role list"
  | M_inner Message Role "string list" "Role list"
  | M_returned

text \<open>The closing goroutine (lines 227-230): \<^verbatim>\<open>wg.Wait(); close(results)\<close>.\<close>

datatype closer_pc = C_unspawned | C_waiting | C_woken | C_closed

text \<open>
  What was printed: the two \<open>Printf\<close> calls of \<open>RunProject\<close> with the values they
  were given, and the text each one writes.
\<close>

datatype printed = Printed_error string error | Printed_output string string

fun render :: "printed \<Rightarrow> string" where
  "render (Printed_error profile err) = profile @ '' error: '' @ Error err @ ''\<newline>''"
| "render (Printed_output role content) =
     ''=== ['' @ role @ ''] OUTPUT ===\<newline>'' @ content @ ''\<newline>\<newline>''"

text \<open>
  The shared state: the heap of Memory objects, the goroutines' program counters, the
  WaitGroup counter, the buffered channel \<open>results\<close> (its queue and whether it is
  closed) and the standard output.
\<close>

record state =
  mem :: heap
  tasks :: "task list"
  wg :: nat
  results :: "Message list"
  closed :: bool
  main :: main_pc
  closer :: closer_pc
  stdout :: "printed list"

datatype thread = Main | Worker nat | Closer

text \<open>The state after the seeding loop, before the first \<^verbatim>\<open>go\<close> statement.\<close>

definition init :: "Team \<Rightarrow> heap \<Rightarrow> state" where
  "init t h =
     \<lparr>mem = seed (userReq t) (Roles t) h,
      tasks = replicate (length (Roles t)) T_unspawned,
      wg = 0, results = [], closed = False,
      main = M_dispatch 0, closer = C_unspawned, stdout = []\<rparr>"

text \<open>
  One step of \<open>RunProject\<close>'s own goroutine. \<open>None\<close>: it cannot move (it is blocked
  on the channel, or has returned).
\<close>

fun step_main :: "Team \<Rightarrow> main_pc \<Rightarrow> state \<Rightarrow> state option" where
  "step_main t (M_dispatch i) st =
     (if i < length (Roles t)
      then Some (st\<lparr>wg := wg st + 1, tasks := (tasks st)[i := T_spawned],
                    main := M_dispatch (i + 1)\<rparr>)
      else Some (st\<lparr>closer := C_waiting, main := M_range\<rparr>))"
| "step_main t M_range st =
     (case results st of
        msg # rest \<Rightarrow> Some (st\<lparr>results := rest, main := M_received msg\<rparr>)
      | [] \<Rightarrow> if closed st then Some (st\<lparr>main := M_returned\<rparr>) else None)"
| "step_main t (M_received msg) st =
     Some (st\<lparr>stdout := stdout st @ [Printed_output (Role msg) (Content msg)],
               main := M_outer msg (Roles t)\<rparr>)"
| "step_main t (M_outer msg []) st = Some (st\<lparr>main := M_range\<rparr>)"
| "step_main t (M_outer msg (role # roles)) st =
     Some (st\<lparr>main := M_inner msg role (WatchList role) roles\<rparr>)"
| "step_main t (M_inner msg role [] roles) st = Some (st\<lparr>main := M_outer msg roles\<rparr>)"
| "step_main t (M_inner msg role (watchType # ws) roles) st =
     Some (st\<lparr>mem := (if watchType = CauseBy msg
                       then Add_at (mem st) (Memory role) msg else mem st),
               main := M_inner msg role ws roles\<rparr>)"
| "step_main t M_returned st = None"

text \<open>
  One step of the goroutine of role number \<open>i\<close>. The capability runs on the context
  read earlier; the \<open>Add\<close> of its message is a later step, on the heap as it is then.
  The channel has capacity \<^verbatim>\<open>len(t.Roles)\<close>: a send blocks while it is full.
  \<^verbatim>\<open>wg.Done()\<close> on a zero counter would panic; the model has no step there.
\<close>

fun step_worker :: "Team \<Rightarrow> nat \<Rightarrow> task \<Rightarrow> state \<Rightarrow> state option" where
  "step_worker t i T_unspawned st = None"
| "step_worker t i T_spawned st =
     Some (st\<lparr>tasks := (tasks st)
       [i := T_context (contextData_of (GetRecent (mem st (Memory (Roles t ! i)))))]\<rparr>)"
| "step_worker t i (T_context c) st =
     (case Act_loop (Roles t ! i) c (Actions (Roles t ! i)) (mem st) of
        (msg, Some err, _) \<Rightarrow> Some (st\<lparr>tasks := (tasks st)[i := T_acted msg (Some err)]\<rparr>)
      | (msg, None, _) \<Rightarrow> Some (st\<lparr>tasks := (tasks st)[i := T_ran msg]\<rparr>))"
| "step_worker t i (T_ran msg) st =
     Some (st\<lparr>mem := Add_at (mem st) (Memory (Roles t ! i)) msg,
               tasks := (tasks st)[i := T_acted msg None]\<rparr>)"
| "step_worker t i (T_acted msg (Some err)) st =
     Some (st\<lparr>stdout := stdout st @ [Printed_error (Profile (Roles t ! i)) err],
               tasks := (tasks st)[i := T_deferred msg (Some err)]\<rparr>)"
| "step_worker t i (T_acted msg None) st =
     (if length (results st) < length (Roles t)
      then Some (st\<lparr>results := results st @ [msg],
                    tasks := (tasks st)[i := T_deferred msg None]\<rparr>)
      else None)"
| "step_worker t i (T_deferred msg err) st =
     (if 0 < wg st
      then Some (st\<lparr>wg := wg st - 1, tasks := (tasks st)[i := T_finished msg err]\<rparr>)
      else None)"
| "step_worker t i (T_finished msg err) st = None"

fun step_closer :: "closer_pc \<Rightarrow> state \<Rightarrow> state option" where
  "step_closer C_unspawned st = None"
| "step_closer C_waiting st = (if wg st = 0 then Some (st\<lparr>closer := C_woken\<rparr>) else None)"
| "step_closer C_woken st = Some (st\<lparr>closed := True, closer := C_closed\<rparr>)"
| "step_closer C_closed st = None"

fun step :: "Team \<Rightarrow> thread \<Rightarrow> state \<Rightarrow> state option" where
  "step t Main st = step_main t (main st) st"
| "step t (Worker i) st =
     (if i < length (Roles t) \<and> i < length (tasks st)
      then step_worker t i (tasks st ! i) st else None)"
| "step t Closer st = step_closer (closer st) st"

text \<open>Running a schedule: \<open>None\<close> when it names a goroutine that cannot move.\<close>

fun exec :: "Team \<Rightarrow> thread list \<Rightarrow> state \<Rightarrow> state option" where
  "exec t [] st = Some st"
| "exec t (th # ths) st =
     (case step t th st of None \<Rightarrow> None | Some st' \<Rightarrow> exec t ths st')"

text \<open>
  \<open>RunProject t h sched\<close>: the state that \<open>RunProject\<close> on team \<open>t\<close>, started on heap
  \<open>h\<close>, reaches under the schedule \<open>sched\<close>. The call has returned in the states whose
  \<open>main\<close> is \<open>M_returned\<close>.
\<close>

definition RunProject :: "Team \<Rightarrow> heap \<Rightarrow> thread list \<Rightarrow> state option" where
  "RunProject t h sched = exec t sched (init t h)"

section \<open>Invariants of RunProject: definitions\<close>

text \<open>Predicates and weights on the program counter of a role's goroutine: not yet started, ended, and counted by the WaitGroup (started and not yet past \<^verbatim>\<open>wg.Done()\<close>).\<close>

fun unspawned :: "task \<Rightarrow> bool" where
  "unspawned T_unspawned = True"
| "unspawned _ = False"

fun finished :: "task \<Rightarrow> bool" where
  "finished (T_finished msg err) = True"
| "finished _ = False"

fun active :: "task \<Rightarrow> nat" where
  "active T_unspawned = 0"
| "active (T_finished msg err) = 0"
| "active _ = 1"

text \<open>After the dispatch loop every goroutine has been started, the closing one included.\<close>

definition all_spawned :: "state \<Rightarrow> bool" where
  "all_spawned st \<longleftrightarrow> (\<forall>pc \<in> set (tasks st). \<not> unspawned pc) \<and> closer st \<noteq> C_unspawned"

text \<open>The control state is consistent: a program counter per role; while \<open>i\<close> roles are dispatched exactly the first \<open>i\<close> goroutines exist; inside the delivery loops the remaining roles and watch list entries are suffixes of the team's and of the role's.\<close>

definition inv_shape :: "Team \<Rightarrow> state \<Rightarrow> bool" where
  "inv_shape t st \<longleftrightarrow>
     length (tasks st) = length (Roles t) \<and>
     (case main st of
        M_dispatch k \<Rightarrow>
          k \<le> length (Roles t) \<and> closer st = C_unspawned \<and>
          (\<forall>i < length (Roles t). unspawned (tasks st ! i) = (k \<le> i))
      | M_outer msg rem \<Rightarrow> all_spawned st \<and> (\<exists>pre. Roles t = pre @ rem)
      | M_inner msg r ws rem \<Rightarrow>
          all_spawned st \<and> (\<exists>pre. Roles t = pre @ r # rem) \<and> (\<exists>pre. WatchList r = pre @ ws)
      | _ \<Rightarrow> all_spawned st)"

text \<open>The WaitGroup counter is the number of started, unfinished role goroutines; the closing goroutine gets past \<^verbatim>\<open>wg.Wait()\<close> only when all of them have ended; the channel is closed exactly when the closing goroutine has closed it.\<close>

definition inv_wg :: "state \<Rightarrow> bool" where
  "inv_wg st \<longleftrightarrow>
     wg st = sum_list (map active (tasks st)) \<and>
     (closer st = C_woken \<or> closer st = C_closed \<longrightarrow> (\<forall>pc \<in> set (tasks st). finished pc)) \<and>
     (closed st \<longleftrightarrow> closer st = C_closed)"

text \<open>What the program counter of a role's goroutine records: the message it has sent on the channel, the message it has appended to its own Memory, and the pair \<open>Act\<close> returned or is about to return.\<close>

fun sent_of :: "task \<Rightarrow> Message list" where
  "sent_of (T_deferred msg None) = [msg]"
| "sent_of (T_finished msg None) = [msg]"
| "sent_of _ = []"

fun added_of :: "task \<Rightarrow> Message list" where
  "added_of (T_acted msg None) = [msg]"
| "added_of (T_deferred msg None) = [msg]"
| "added_of (T_finished msg None) = [msg]"
| "added_of _ = []"

fun result_of :: "task \<Rightarrow> (Message \<times> error option) option" where
  "result_of (T_ran msg) = Some (msg, None)"
| "result_of (T_acted msg err) = Some (msg, err)"
| "result_of (T_deferred msg err) = Some (msg, err)"
| "result_of (T_finished msg err) = Some (msg, err)"
| "result_of _ = None"

text \<open>The message that \<open>RunProject\<close> has received and is reporting or delivering, and the one received but not yet printed.\<close>

fun held :: "main_pc \<Rightarrow> Message list" where
  "held (M_received msg) = [msg]"
| "held (M_outer msg roles) = [msg]"
| "held (M_inner msg role ws roles) = [msg]"
| "held _ = []"

fun unprinted :: "main_pc \<Rightarrow> Message list" where
  "unprinted (M_received msg) = [msg]"
| "unprinted _ = []"

text \<open>The result reports among the printed lines, and the report of a message.\<close>

fun is_output :: "printed \<Rightarrow> bool" where
  "is_output (Printed_output role content) = True"
| "is_output (Printed_error profile err) = False"

definition report :: "Message \<Rightarrow> printed" where
  "report msg = Printed_output (Role msg) (Content msg)"

text \<open>All messages sent so far, as a multiset.\<close>

definition sent_msgs :: "task list \<Rightarrow> Message multiset" where
  "sent_msgs ts = (\<Sum>pc\<leftarrow>ts. mset (sent_of pc))"

text \<open>Message flow: what is queued in the channel or held by \<open>RunProject\<close> was sent by a role goroutine; the reports printed, together with the messages queued or received and not yet printed, are exactly the messages sent.\<close>

definition inv_flow :: "state \<Rightarrow> bool" where
  "inv_flow st \<longleftrightarrow>
     mset (results st) + mset (held (main st)) \<subseteq># sent_msgs (tasks st) \<and>
     mset (filter is_output (stdout st))
       + image_mset report (mset (results st) + mset (unprinted (main st)))
     = image_mset report (sent_msgs (tasks st))"

text \<open>\<open>(msg, err)\<close> is a pair that \<open>Act\<close> of role \<open>r\<close> can return, for some context and heap.\<close>

definition Act_outcome :: "Role \<Rightarrow> Message \<Rightarrow> error option \<Rightarrow> bool" where
  "Act_outcome r msg err \<longleftrightarrow>
     (\<exists>c h h' calls. Act_loop r c (Actions r) h = (msg, err, h', calls))"

text \<open>Whatever a role's goroutine holds as the result of \<open>Act\<close> is an outcome of that role's \<open>Act\<close>.\<close>

definition inv_own :: "Team \<Rightarrow> state \<Rightarrow> bool" where
  "inv_own t st \<longleftrightarrow>
     (\<forall>i < length (tasks st). \<forall>msg err.
        result_of (tasks st ! i) = Some (msg, err) \<longrightarrow> Act_outcome (Roles t ! i) msg err)"

text \<open>\<open>c\<close> is the context that \<open>Act\<close> builds from a Memory holding an earlier content of the log \<open>hist\<close>: its first \<open>k\<close> entries.\<close>

definition read_context :: "Message list \<Rightarrow> string \<Rightarrow> bool" where
  "read_context hist c \<longleftrightarrow>
     (\<exists>k. k \<le> length hist \<and> c = contextData_of (GetRecent \<lparr>history = take k hist\<rparr>))"

text \<open>\<open>(msg, err)\<close> is what \<open>Act\<close> of role \<open>r\<close> returns on a context read from an earlier content of the log \<open>hist\<close>.\<close>

definition own_outcome :: "Role \<Rightarrow> Message list \<Rightarrow> Message \<Rightarrow> error option \<Rightarrow> bool" where
  "own_outcome r hist msg err \<longleftrightarrow>
     (\<exists>c h h' calls. read_context hist c \<and> Act_loop r c (Actions r) h = (msg, err, h', calls))"

text \<open>The context held by a role's goroutine was read from that role's own Memory, and the result it holds is the outcome of that role's own \<open>Act\<close> on such a context.\<close>

definition inv_ctx :: "Team \<Rightarrow> state \<Rightarrow> bool" where
  "inv_ctx t st \<longleftrightarrow>
     (\<forall>i < length (tasks st).
        (\<forall>c. tasks st ! i = T_context c \<longrightarrow>
           read_context (history (mem st (Memory (Roles t ! i)))) c)
        \<and> (\<forall>msg err. result_of (tasks st ! i) = Some (msg, err) \<longrightarrow>
             own_outcome (Roles t ! i) (history (mem st (Memory (Roles t ! i)))) msg err))"

text \<open>How many times the delivery loops over \<open>roles\<close> append \<open>msg\<close> to the Memory at address \<open>a\<close>: once per matching watch list entry of every role whose Memory is at \<open>a\<close>; and these copies as a multiset.\<close>

definition copies :: "Role list \<Rightarrow> nat \<Rightarrow> Message \<Rightarrow> nat" where
  "copies roles a msg =
     (\<Sum>r\<leftarrow>roles. if Memory r = a then count_list (WatchList r) (CauseBy msg) else 0)"

definition delivered :: "Role list \<Rightarrow> nat \<Rightarrow> Message \<Rightarrow> Message multiset" where
  "delivered roles a msg = replicate_mset (copies roles a msg) msg"

text \<open>The appends at address \<open>a\<close> that the delivery in progress still has to make.\<close>

fun pending :: "Team \<Rightarrow> main_pc \<Rightarrow> nat \<Rightarrow> Message multiset" where
  "pending t (M_received msg) a = delivered (Roles t) a msg"
| "pending t (M_outer msg roles) a = delivered roles a msg"
| "pending t (M_inner msg role ws roles) a =
     (if Memory role = a then replicate_mset (count_list ws (CauseBy msg)) msg else {#})
     + delivered roles a msg"
| "pending t _ a = {#}"

text \<open>What the goroutine of one role has caused at address \<open>a\<close>, in the end: its own append, and the deliveries of the message it sent.\<close>

definition contrib :: "Team \<Rightarrow> nat \<Rightarrow> Role \<times> task \<Rightarrow> Message multiset" where
  "contrib t a x =
     (if Memory (fst x) = a then mset (added_of (snd x)) else {#})
     + (\<Sum>m\<leftarrow>sent_of (snd x). delivered (Roles t) a m)"

text \<open>Accounting of every Memory: its content, with the deliveries still to come for the messages in progress and in the queue, is the seeded content plus the contributions of all role goroutines.\<close>

definition inv_mem :: "Team \<Rightarrow> heap \<Rightarrow> state \<Rightarrow> bool" where
  "inv_mem t h st \<longleftrightarrow>
     (\<forall>a. mset (history (mem st a)) + pending t (main st) a
            + (\<Sum>m\<leftarrow>results st. delivered (Roles t) a m)
          = mset (history (seed (userReq t) (Roles t) h a))
            + (\<Sum>x\<leftarrow>zip (Roles t) (tasks st). contrib t a x))"

text \<open>Memories only grow: each one extends its seeded content.\<close>

definition inv_prefix :: "Team \<Rightarrow> heap \<Rightarrow> state \<Rightarrow> bool" where
  "inv_prefix t h st \<longleftrightarrow>
     (\<forall>a. \<exists>ys. history (mem st a) = history (seed (userReq t) (Roles t) h a) @ ys)"

text \<open>Once \<open>RunProject\<close> has returned, the channel is closed and empty.\<close>

definition inv_ret :: "state \<Rightarrow> bool" where
  "inv_ret st \<longleftrightarrow> (main st = M_returned \<longrightarrow> results st = [] \<and> closed st)"

text \<open>The invariant of \<open>RunProject\<close>: all of the above.\<close>

definition invariant :: "Team \<Rightarrow> heap \<Rightarrow> state \<Rightarrow> bool" where
  "invariant t h st \<longleftrightarrow>
     inv_shape t st \<and> inv_wg st \<and> inv_flow st \<and> inv_own t st \<and> inv_mem t h st
     \<and> inv_prefix t h st \<and> inv_ret st"

section \<open>Termination bound\<close>

text \<open>A bound on the steps still to come, used to show that every run ends: the steps of the delivery loops for one message, of a role's goroutine (counting the delivery of the message it may still send), of \<open>RunProject\<close> itself and of the closing goroutine.\<close>

definition loop_cost :: "Role list \<Rightarrow> nat" where
  "loop_cost roles = (\<Sum>r\<leftarrow>roles. 2 + length (WatchList r))"

fun task_rem :: "nat \<Rightarrow> task \<Rightarrow> nat" where
  "task_rem K T_unspawned = 5 + K"
| "task_rem K T_spawned = 5 + K"
| "task_rem K (T_context c) = 4 + K"
| "task_rem K (T_ran msg) = 3 + K"
| "task_rem K (T_acted msg err) = 2 + K"
| "task_rem K (T_deferred msg err) = 1"
| "task_rem K (T_finished msg err) = 0"

fun main_rem :: "Team \<Rightarrow> main_pc \<Rightarrow> nat" where
  "main_rem t (M_dispatch k) = (length (Roles t) - k) + 2"
| "main_rem t M_range = 1"
| "main_rem t (M_received msg) = loop_cost (Roles t) + 3"
| "main_rem t (M_outer msg roles) = loop_cost roles + 2"
| "main_rem t (M_inner msg role ws roles) = length ws + 1 + loop_cost roles + 2"
| "main_rem t M_returned = 0"

fun closer_rem :: "closer_pc \<Rightarrow> nat" where
  "closer_rem C_unspawned = 2"
| "closer_rem C_waiting = 2"
| "closer_rem C_woken = 1"
| "closer_rem C_closed = 0"

text \<open>The number of steps a state has left at most.\<close>

definition steps_left :: "Team \<Rightarrow> state \<Rightarrow> nat" where
  "steps_left t st =
     main_rem t (main st) + closer_rem (closer st)
     + (\<Sum>pc\<leftarrow>tasks st. task_rem (loop_cost (Roles t) + 3) pc)
     + length (results st) * (loop_cost (Roles t) + 3)"

text \<open>The goroutine has ended and its \<open>Act\<close> had succeeded.\<close>

fun succeeded :: "task \<Rightarrow> bool" where
  "succeeded (T_finished msg None) = True"
| "succeeded _ = False"

section \<open>The team of main (lines 245-296) and example runs\<close>

text \<open>The team that \<^verbatim>\<open>main\<close> builds (lines 259-293), over the three parameters of the capabilities. Each role gets a fresh \<^verbatim>\<open>&Memory{}\<close>: addresses 0, 1 and 2 in allocation order.\<close>

definition coder :: "(string \<Rightarrow> string \<Rightarrow> string list) \<Rightarrow> (string \<Rightarrow> string) \<Rightarrow> llmClient \<Rightarrow> Role" where
  "coder FindStringSubmatch TrimSpace llm =
     \<lparr>Role.Name = ''Alice'', Profile = ''SimpleCoder'',
      Actions = [SimpleWriteCode FindStringSubmatch TrimSpace llm],
      WatchList = [''UserRequirement''], Memory = 0\<rparr>"

definition tester :: "(string \<Rightarrow> string \<Rightarrow> string list) \<Rightarrow> (string \<Rightarrow> string) \<Rightarrow> llmClient \<Rightarrow> Role" where
  "tester FindStringSubmatch TrimSpace llm =
     \<lparr>Role.Name = ''Bob'', Profile = ''SimpleTester'',
      Actions = [SimpleWriteTest FindStringSubmatch TrimSpace llm],
      WatchList = [''SimpleWriteCode''], Memory = 1\<rparr>"

definition reviewer :: "llmClient \<Rightarrow> Role" where
  "reviewer llm =
     \<lparr>Role.Name = ''Charlie'', Profile = ''SimpleReviewer'',
      Actions = [SimpleWriteReview llm],
      WatchList = [''SimpleWriteTest''], Memory = 2\<rparr>"

definition main_team :: "(string \<Rightarrow> string \<Rightarrow> string list) \<Rightarrow> (string \<Rightarrow> string) \<Rightarrow> llmClient \<Rightarrow> Team" where
  "main_team FindStringSubmatch TrimSpace llm =
     \<lparr>Roles = [tester FindStringSubmatch TrimSpace llm, coder FindStringSubmatch TrimSpace llm,
               reviewer llm],
      ProjectIdea = ''write a function that calculates the product of a list''\<rparr>"

text \<open>The heap in which every Memory is empty, as \<^verbatim>\<open>&Memory{}\<close> creates it.\<close>

definition empty_heap :: heap where
  "empty_heap = (\<lambda>p. \<lparr>history = []\<rparr>)"

text \<open>Example inputs for the concrete runs below: a language model that always answers \<open>ok\<close>, and the team of \<^verbatim>\<open>main\<close> over it and over Go's behaviour on the empty pattern.\<close>

definition llm_ok :: llmClient where
  "llm_ok prompt = Inr [''ok'']"

definition demo_team :: Team where
  "demo_team = main_team FindStringSubmatch_go (\<lambda>s. s) llm_ok"

text \<open>What the concrete runs are compared on: the histories at the given addresses and the rest of the state.\<close>

definition observe :: "nat list \<Rightarrow> state \<Rightarrow>
    Message list list \<times> task list \<times> nat \<times> Message list \<times> bool \<times> main_pc \<times> closer_pc \<times> printed list" where
  "observe as st =
     (map (\<lambda>a. history (mem st a)) as, tasks st, wg st, results st, closed st, main st,
      closer st, stdout st)"

definition observed :: "nat list \<Rightarrow> state option \<Rightarrow>
    (Message list list \<times> task list \<times> nat \<times> Message list \<times> bool \<times> main_pc \<times> closer_pc \<times> printed list) option" where
  "observed as r = map_option (observe as) r"

text \<open>Two schedules for the team of \<^verbatim>\<open>main\<close>: one runs the role goroutines to their end one after the other and then lets \<open>RunProject\<close> drain the channel; the other lets the coder send its result and \<open>RunProject\<close> deliver it while the other two roles have not started \<open>Act\<close>.\<close>

definition sequential_schedule :: "thread list" where
  "sequential_schedule =
     replicate 4 Main @ replicate 5 (Worker 0) @ replicate 5 (Worker 1) @ replicate 5 (Worker 2)
     @ [Closer, Closer] @ replicate 37 Main"

definition early_delivery_schedule :: "thread list" where
  "early_delivery_schedule = replicate 4 Main @ replicate 4 (Worker 1) @ replicate 4 Main"

text \<open>The messages of these runs.\<close>

definition seed_msg :: Message where
  "seed_msg = \<lparr>Content = ''write a function that calculates the product of a list'',
               Role = ''User'', CauseBy = ''UserRequirement''\<rparr>"

definition code_msg :: Message where
  "code_msg = \<lparr>Content = ''ok'', Role = ''SimpleCoder'', CauseBy = ''SimpleWriteCode''\<rparr>"

definition test_msg :: Message where
  "test_msg = \<lparr>Content = ''ok'', Role = ''SimpleTester'', CauseBy = ''SimpleWriteTest''\<rparr>"

definition review_msg :: Message where
  "review_msg = \<lparr>Content = ''ok'', Role = ''SimpleReviewer'', CauseBy = ''SimpleWriteReview''\<rparr>"

text \<open>A team whose tester's capability fails, and a schedule that runs it to the end.\<close>

definition broken_tester :: Role where
  "broken_tester =
     \<lparr>Role.Name = ''Bob'', Profile = ''SimpleTester'',
      Actions = [Action ''SimpleWriteTest'' (\<lambda>contextData. Inl (errorString ''timeout''))],
      WatchList = [''SimpleWriteCode''], Memory = 1\<rparr>"

definition failing_team :: Team where
  "failing_team =
     \<lparr>Roles = [broken_tester, coder FindStringSubmatch_go (\<lambda>s. s) llm_ok, reviewer llm_ok],
      ProjectIdea = ''write a function that calculates the product of a list''\<rparr>"

definition failing_schedule :: "thread list" where
  "failing_schedule =
     replicate 4 Main @ replicate 4 (Worker 0) @ replicate 5 (Worker 1) @ replicate 5 (Worker 2)
     @ [Closer, Closer] @ replicate 25 Main"

text \<open>A one-role team whose role watches the name of its own capability, and a schedule that runs it to the end.\<close>

definition self_watcher :: Role where
  "self_watcher =
     \<lparr>Role.Name = ''Alice'', Profile = ''SimpleCoder'',
      Actions = [SimpleWriteCode FindStringSubmatch_go (\<lambda>s. s) llm_ok],
      WatchList = [''SimpleWriteCode''], Memory = 0\<rparr>"

definition self_team :: Team where
  "self_team = \<lparr>Roles = [self_watcher], ProjectIdea = ''idea''\<rparr>"

definition self_schedule :: "thread list" where
  "self_schedule = replicate 2 Main @ replicate 5 (Worker 0) @ [Closer, Closer] @ replicate 7 Main"

section \<open>Memory log laws\<close>

lemma history_foldl_Add: "history (foldl Add m xs) = history m @ xs"
  by (induction xs arbitrary: m) (simp_all add: Add_def)

text \<open>
  Claim C8. Reading the most recent entry right after \<open>Add m x\<close> gives exactly \<open>[x]\<close>;
  an empty log gives the empty sequence; a sequence of \<open>Add\<close> calls appends exactly
  the added messages in call order, so that starting from the empty log the length is
  the number of calls.
\<close>

theorem Memory_log_laws:
  "GetRecent (Add m x) = [x]
   \<and> GetRecent \<lparr>history = []\<rparr> = []
   \<and> history (foldl Add m xs) = history m @ xs
   \<and> length (history (foldl Add \<lparr>history = []\<rparr> xs)) = length xs"
  by (simp add: GetRecent_def Add_def history_foldl_Add)

section \<open>Capabilities pass their output through\<close>

lemma parseCode_id:
  assumes "\<forall>s. length (FindStringSubmatch '''' s) \<le> 1"
  shows "parseCode FindStringSubmatch TrimSpace s = s"
  using assms by (simp add: parseCode_def Let_def not_less [symmetric])

text \<open>
  Claim C9. \<open>parseCode\<close> is the identity: both of its patterns are the empty pattern,
  and whenever \<open>FindStringSubmatch\<close> on the empty pattern returns at most one element
  (as Go's does: the match and no capture group), neither extraction branch is taken
  and nothing is trimmed. The code-writing and test-writing capabilities therefore
  return the first choice of the response verbatim.
\<close>

theorem parseCode_identity:
  assumes "\<forall>s. length (FindStringSubmatch '''' s) \<le> 1"
  shows "parseCode FindStringSubmatch TrimSpace rsp = rsp
    \<and> (\<forall>llm instruction c cs.
          llm (SimpleWriteCode_prompt instruction) = Inr (c # cs) \<and> c \<noteq> '''' \<longrightarrow>
          SimpleWriteCode_Run FindStringSubmatch TrimSpace llm instruction = Inr c)
    \<and> (\<forall>llm contextData c cs.
          llm (SimpleWriteTest_prompt contextData) = Inr (c # cs) \<and> c \<noteq> '''' \<longrightarrow>
          SimpleWriteTest_Run FindStringSubmatch TrimSpace llm contextData = Inr c)"
  using assms by (simp add: parseCode_id SimpleWriteCode_Run_def SimpleWriteTest_Run_def)

text \<open>Claim C9 on Go's behaviour on the empty pattern, with a \<open>TrimSpace\<close> that would erase everything if it were called.\<close>

theorem parseCode_identity_witness:
  "parseCode FindStringSubmatch_go (\<lambda>s. '''') ''```python x```'' = ''```python x```''
   \<and> SimpleWriteCode_Run FindStringSubmatch_go (\<lambda>s. '''') (\<lambda>p. Inr [''  ```python x```  ''])
         ''add'' = Inr ''  ```python x```  ''"
  using parseCode_identity [of FindStringSubmatch_go "\<lambda>s. ''''" "''```python x```''"]
  by (simp add: FindStringSubmatch_go_def)

section \<open>Role.Act\<close>

lemma foldl_Sprintf_context:
  "foldl (\<lambda>c msg. c @ Sprintf_context msg) acc msgs = acc @ concat (map Sprintf_context msgs)"
  by (induction msgs arbitrary: acc) simp_all

lemma contextData_of_concat: "contextData_of msgs = concat (map Sprintf_context msgs)"
  by (simp add: contextData_of_def foldl_Sprintf_context)

lemma Act_loop_Cons_Inr:
  "Run action c = Inr output \<Longrightarrow>
   Act_loop r c (action # rest) h =
     (\<lparr>Content = output, Role = Profile r, CauseBy = Action.Name action\<rparr>, None,
      Add_at h (Memory r) \<lparr>Content = output, Role = Profile r, CauseBy = Action.Name action\<rparr>,
      [(Action.Name action, c)])"
  by (simp add: Let_def)

lemma Act_loop_Cons_Inl:
  "Run action c = Inl err \<Longrightarrow>
   Act_loop r c (action # rest) h =
     (Message_zero, Some (Errorf_action_failed (Action.Name action) err), h,
      [(Action.Name action, c)])"
  by simp

text \<open>
  Claim C4. For a role whose first capability succeeds on the built context: the
  context is the concatenation of \<open>"[<role>]: <content>\n"\<close> over the messages of
  \<open>GetRecent\<close> (the empty string when there is none); exactly one capability invocation
  is made, that of the first capability on this context, whatever the later capabilities
  are; the returned message has the capability's output as content, the role's profile
  as role and the capability's name as cause; no error is returned; and the heap is the
  old one with exactly this message appended to the role's own Memory.
\<close>

theorem Act_success:
  assumes "Actions r = action # rest"
    and "Run action (contextData_of (GetRecent (h (Memory r)))) = Inr output"
  shows "contextData_of (GetRecent (h (Memory r))) =
           concat (map (\<lambda>m. ''['' @ Role m @ '']: '' @ Content m @ ''\<newline>'')
             (GetRecent (h (Memory r))))
    \<and> (GetRecent (h (Memory r)) = [] \<longrightarrow> contextData_of (GetRecent (h (Memory r))) = '''')
    \<and> Act r h =
         (\<lparr>Content = output, Role = Profile r, CauseBy = Action.Name action\<rparr>, None,
          Add_at h (Memory r)
            \<lparr>Content = output, Role = Profile r, CauseBy = Action.Name action\<rparr>,
          [(Action.Name action, contextData_of (GetRecent (h (Memory r))))])
    \<and> Act (r\<lparr>Actions := action # rest'\<rparr>) h = Act r h"
proof -
  have "Sprintf_context = (\<lambda>m. ''['' @ Role m @ '']: '' @ Content m @ ''\<newline>'')"
    by (rule ext) (simp add: Sprintf_context_def)
  then have a: "contextData_of msgs =
      concat (map (\<lambda>m. ''['' @ Role m @ '']: '' @ Content m @ ''\<newline>'') msgs)" for msgs
    by (simp add: contextData_of_concat)
  have b: "contextData_of [] = ''''"
    by (simp add: contextData_of_def)
  have c: "Act r h =
         (\<lparr>Content = output, Role = Profile r, CauseBy = Action.Name action\<rparr>, None,
          Add_at h (Memory r)
            \<lparr>Content = output, Role = Profile r, CauseBy = Action.Name action\<rparr>,
          [(Action.Name action, contextData_of (GetRecent (h (Memory r))))])"
    unfolding Act_def using assms by (simp add: Act_loop_Cons_Inr del: Act_loop.simps)
  have d: "Act (r\<lparr>Actions := action # rest'\<rparr>) h = Act r h"
    unfolding Act_def using assms by (simp add: Act_loop_Cons_Inr del: Act_loop.simps)
  show ?thesis using a b c d by metis
qed

lemma Act_error_cases:
  "(Actions r = [] \<longrightarrow>
      Act r h = (Message_zero, Some (errorString ''no suitable action found''), h, []))
   \<and> (\<forall>action rest err.
        Actions r = action # rest
        \<and> Run action (contextData_of (GetRecent (h (Memory r)))) = Inl err \<longrightarrow>
        Act r h =
          (Message_zero,
           Some (wrapError (Action.Name action @ '' action failed: '' @ Error err) err), h,
           [(Action.Name action, contextData_of (GetRecent (h (Memory r))))]))
   \<and> (\<forall>msg e h' calls.
        Act r h = (msg, Some e, h', calls) \<longrightarrow>
        (Actions r = []
         \<or> (\<exists>action rest err. Actions r = action # rest
              \<and> Run action (contextData_of (GetRecent (h (Memory r)))) = Inl err))
        \<and> msg = Message_zero \<and> h' = h \<and> h' (Memory r) = h (Memory r))
   \<and> (\<forall>msg h' calls.
        Act r h = (msg, None, h', calls) \<longrightarrow>
        (\<exists>action rest output. Actions r = action # rest
              \<and> Run action (contextData_of (GetRecent (h (Memory r)))) = Inr output))"
proof -
  define c where "c = contextData_of (GetRecent (h (Memory r)))"
  consider (empty) "Actions r = []"
    | (failed) action rest err where "Actions r = action # rest" "Run action c = Inl err"
    | (succeeded) action rest outp where "Actions r = action # rest" "Run action c = Inr outp"
    by (metis list.exhaust sum.exhaust)
  then show ?thesis
  proof cases
    case empty
    then show ?thesis
      by (simp add: Act_def errors_New_def)
  next
    case failed
    then show ?thesis
      unfolding c_def by (simp add: Act_def Errorf_action_failed_def)
  next
    case succeeded
    then show ?thesis
      unfolding c_def by (simp add: Act_def Let_def)
  qed
qed

section \<open>The goroutine of a role runs Act\<close>

text \<open>
  The first three steps of a role's goroutine, run without interruption, are the call
  \<^verbatim>\<open>r.Act(ctx)\<close> (line 218) and, when it fails, the report of the error (line 220):
  on success the heap becomes the one \<open>Act\<close> returns, on failure nothing but the
  standard output changes.
\<close>

lemma worker_runs_Act_success:
  assumes "i < length (Roles t)" "i < length (tasks st)" "tasks st ! i = T_spawned"
    and "Act (Roles t ! i) (mem st) = (msg, None, h', calls)"
  shows "exec t [Worker i, Worker i, Worker i] st =
           Some (st\<lparr>mem := h', tasks := (tasks st)[i := T_acted msg None]\<rparr>)"
proof -
  obtain action rest outp where a: "Actions (Roles t ! i) = action # rest"
      "Run action (contextData_of (GetRecent (mem st (Memory (Roles t ! i))))) = Inr outp"
    using assms(4) by (cases "Actions (Roles t ! i)") (auto simp: Act_def split: sum.splits)
  show ?thesis
    using assms a by (auto simp: Act_def Let_def)
qed

lemma worker_runs_Act_failure:
  assumes "i < length (Roles t)" "i < length (tasks st)" "tasks st ! i = T_spawned"
    and "Act (Roles t ! i) (mem st) = (msg, Some err, h', calls)"
  shows "exec t [Worker i, Worker i, Worker i] st =
           Some (st\<lparr>stdout := stdout st @ [Printed_error (Profile (Roles t ! i)) err],
                    tasks := (tasks st)[i := T_deferred msg (Some err)]\<rparr>)
         \<and> h' = mem st"
proof (cases "Actions (Roles t ! i)")
  case Nil
  then show ?thesis using assms by (auto simp: Act_def)
next
  case (Cons action rest)
  then show ?thesis using assms by (auto simp: Act_def Let_def split: sum.splits)
qed

text \<open>
  Claim C5. \<open>Act\<close> returns an error exactly when the capability sequence is empty
  (the error is \<open>no suitable action found\<close>, and no capability is invoked) or the first
  capability fails (the error wraps the capability's error under the text
  \<open><name> action failed: <cause>\<close>); in both cases the returned message is the zero
  message and the heap, hence the role's Memory, is unchanged. The goroutine that made
  the failing call prints the error and ends its work without sending on the channel:
  after its three steps the channel and every Memory are as before.
\<close>

theorem Act_error:
  "(Actions r = [] \<longrightarrow>
      Act r h = (Message_zero, Some (errorString ''no suitable action found''), h, []))
   \<and> (\<forall>action rest err.
        Actions r = action # rest
        \<and> Run action (contextData_of (GetRecent (h (Memory r)))) = Inl err \<longrightarrow>
        Act r h =
          (Message_zero,
           Some (wrapError (Action.Name action @ '' action failed: '' @ Error err) err), h,
           [(Action.Name action, contextData_of (GetRecent (h (Memory r))))]))
   \<and> (\<forall>msg e h' calls.
        Act r h = (msg, Some e, h', calls) \<longrightarrow>
        (Actions r = []
         \<or> (\<exists>action rest err. Actions r = action # rest
              \<and> Run action (contextData_of (GetRecent (h (Memory r)))) = Inl err))
        \<and> msg = Message_zero \<and> h' = h \<and> h' (Memory r) = h (Memory r))
   \<and> (\<forall>msg h' calls.
        Act r h = (msg, None, h', calls) \<longrightarrow>
        (\<exists>action rest output. Actions r = action # rest
              \<and> Run action (contextData_of (GetRecent (h (Memory r)))) = Inr output))
   \<and> (\<forall>t i st msg e h' calls.
        i < length (Roles t) \<and> i < length (tasks st) \<and> tasks st ! i = T_spawned
        \<and> Roles t ! i = r \<and> mem st = h \<and> Act r h = (msg, Some e, h', calls) \<longrightarrow>
        exec t [Worker i, Worker i, Worker i] st =
          Some (st\<lparr>stdout := stdout st @ [Printed_error (Profile r) e],
                   tasks := (tasks st)[i := T_deferred msg (Some e)]\<rparr>))"
proof -
  have "exec t [Worker i, Worker i, Worker i] st =
          Some (st\<lparr>stdout := stdout st @ [Printed_error (Profile r) e],
                   tasks := (tasks st)[i := T_deferred msg (Some e)]\<rparr>)"
    if "i < length (Roles t)" "i < length (tasks st)" "tasks st ! i = T_spawned"
      "Roles t ! i = r" "mem st = h" "Act r h = (msg, Some e, h', calls)"
    for t i st msg e h' calls
    using worker_runs_Act_failure [of i t st msg e h' calls] that by simp
  then have "\<forall>t i st msg e h' calls.
        i < length (Roles t) \<and> i < length (tasks st) \<and> tasks st ! i = T_spawned
        \<and> Roles t ! i = r \<and> mem st = h \<and> Act r h = (msg, Some e, h', calls) \<longrightarrow>
        exec t [Worker i, Worker i, Worker i] st =
          Some (st\<lparr>stdout := stdout st @ [Printed_error (Profile r) e],
                   tasks := (tasks st)[i := T_deferred msg (Some e)]\<rparr>)"
    by blast
  with Act_error_cases [of r h] show ?thesis
    by (intro conjI) blast+
qed

section \<open>The steps, case by case\<close>

lemma step_main_cases [consumes 1, case_names dispatch spawn_closer receive return print outer_done outer_next inner_done inner_skip inner_add]:
  assumes "step t Main st = Some st'"
  obtains
    (dispatch) i where "main st = M_dispatch i" "i < length (Roles t)"
      "st' = st\<lparr>wg := wg st + 1, tasks := (tasks st)[i := T_spawned], main := M_dispatch (i + 1)\<rparr>"
  | (spawn_closer) i where "main st = M_dispatch i" "\<not> i < length (Roles t)"
      "st' = st\<lparr>closer := C_waiting, main := M_range\<rparr>"
  | (receive) msg rest where "main st = M_range" "results st = msg # rest"
      "st' = st\<lparr>results := rest, main := M_received msg\<rparr>"
  | (return) "main st = M_range" "results st = []" "closed st" "st' = st\<lparr>main := M_returned\<rparr>"
  | (print) msg where "main st = M_received msg"
      "st' = st\<lparr>stdout := stdout st @ [Printed_output (Role msg) (Content msg)], main := M_outer msg (Roles t)\<rparr>"
  | (outer_done) msg where "main st = M_outer msg []" "st' = st\<lparr>main := M_range\<rparr>"
  | (outer_next) msg role roles where "main st = M_outer msg (role # roles)"
      "st' = st\<lparr>main := M_inner msg role (WatchList role) roles\<rparr>"
  | (inner_done) msg role roles where "main st = M_inner msg role [] roles"
      "st' = st\<lparr>main := M_outer msg roles\<rparr>"
  | (inner_skip) msg role watchType ws roles where "main st = M_inner msg role (watchType # ws) roles"
      "watchType \<noteq> CauseBy msg" "st' = st\<lparr>main := M_inner msg role ws roles\<rparr>"
  | (inner_add) msg role ws roles where "main st = M_inner msg role (CauseBy msg # ws) roles"
      "st' = st\<lparr>mem := Add_at (mem st) (Memory role) msg, main := M_inner msg role ws roles\<rparr>"
proof -
  from assms have s: "step_main t (main st) st = Some st'" by simp
  show thesis
  proof (cases "main st")
    case (M_dispatch i)
    with s show thesis
      using dispatch [of i] spawn_closer [of i] by (cases "i < length (Roles t)") auto
  next
    case M_range
    with s show thesis
      using receive "return" by (cases "results st") (auto split: if_splits)
  next
    case (M_received msg)
    with s show thesis
      using print [of msg] by auto
  next
    case (M_outer msg rem)
    with s show thesis
      using outer_done [of msg] outer_next [of msg] by (cases rem) auto
  next
    case (M_inner msg r ws rem)
    show thesis
    proof (cases ws)
      case Nil
      with s M_inner show thesis
        using inner_done [of msg r rem] by auto
    next
      case (Cons w ws')
      with s M_inner show thesis
        using inner_skip [of msg r w ws' rem] inner_add [of msg r ws' rem]
        by (cases "w = CauseBy msg") auto
    qed
  next
    case M_returned
    with s show thesis by simp
  qed
qed

lemma step_worker_cases [consumes 1, case_names read fail run add print send finish]:
  assumes "step t (Worker i) st = Some st'"
  obtains
    (read) "i < length (Roles t)" "i < length (tasks st)" "tasks st ! i = T_spawned"
      "st' = st\<lparr>tasks := (tasks st)
         [i := T_context (contextData_of (GetRecent (mem st (Memory (Roles t ! i)))))]\<rparr>"
  | (fail) c msg err h' calls where "i < length (Roles t)" "i < length (tasks st)"
      "tasks st ! i = T_context c"
      "Act_loop (Roles t ! i) c (Actions (Roles t ! i)) (mem st) = (msg, Some err, h', calls)"
      "st' = st\<lparr>tasks := (tasks st)[i := T_acted msg (Some err)]\<rparr>"
  | (run) c msg h' calls where "i < length (Roles t)" "i < length (tasks st)"
      "tasks st ! i = T_context c"
      "Act_loop (Roles t ! i) c (Actions (Roles t ! i)) (mem st) = (msg, None, h', calls)"
      "st' = st\<lparr>tasks := (tasks st)[i := T_ran msg]\<rparr>"
  | (add) msg where "i < length (Roles t)" "i < length (tasks st)" "tasks st ! i = T_ran msg"
      "st' = st\<lparr>mem := Add_at (mem st) (Memory (Roles t ! i)) msg,
                 tasks := (tasks st)[i := T_acted msg None]\<rparr>"
  | (print) msg err where "i < length (Roles t)" "i < length (tasks st)"
      "tasks st ! i = T_acted msg (Some err)"
      "st' = st\<lparr>stdout := stdout st @ [Printed_error (Profile (Roles t ! i)) err],
                 tasks := (tasks st)[i := T_deferred msg (Some err)]\<rparr>"
  | (send) msg where "i < length (Roles t)" "i < length (tasks st)"
      "tasks st ! i = T_acted msg None" "length (results st) < length (Roles t)"
      "st' = st\<lparr>results := results st @ [msg],
                 tasks := (tasks st)[i := T_deferred msg None]\<rparr>"
  | (finish) msg err where "i < length (Roles t)" "i < length (tasks st)"
      "tasks st ! i = T_deferred msg err" "0 < wg st"
      "st' = st\<lparr>wg := wg st - 1, tasks := (tasks st)[i := T_finished msg err]\<rparr>"
proof -
  from assms have i: "i < length (Roles t)" "i < length (tasks st)"
    and s: "step_worker t i (tasks st ! i) st = Some st'"
    by (simp_all split: if_splits)
  show thesis
  proof (cases "tasks st ! i")
    case T_unspawned
    with s show thesis by simp
  next
    case T_spawned
    with s i show thesis using read by simp
  next
    case (T_context c)
    obtain msg err h' calls where
      a: "Act_loop (Roles t ! i) c (Actions (Roles t ! i)) (mem st) = (msg, err, h', calls)"
      using prod_cases4 by blast
    show thesis
    proof (cases err)
      case None
      with s i a T_context show thesis using run [of c msg h' calls] by simp
    next
      case (Some e)
      with s i a T_context show thesis using fail [of c msg e h' calls] by simp
    qed
  next
    case (T_ran msg)
    with s i show thesis using add [of msg] by simp
  next
    case (T_acted msg err)
    show thesis
    proof (cases err)
      case None
      with s i T_acted show thesis using send [of msg] by (simp split: if_splits)
    next
      case (Some e)
      with s i T_acted show thesis using print [of msg e] by simp
    qed
  next
    case (T_deferred msg err)
    with s i show thesis using finish [of msg err] by (simp split: if_splits)
  next
    case (T_finished msg err)
    with s show thesis by simp
  qed
qed

lemma step_closer_cases [consumes 1, case_names wake close]:
  assumes "step t Closer st = Some st'"
  obtains
    (wake) "closer st = C_waiting" "wg st = 0" "st' = st\<lparr>closer := C_woken\<rparr>"
  | (close) "closer st = C_woken" "st' = st\<lparr>closed := True, closer := C_closed\<rparr>"
proof -
  from assms have s: "step_closer (closer st) st = Some st'" by simp
  show thesis
  proof (cases "closer st")
    case C_unspawned
    with s show thesis by simp
  next
    case C_waiting
    with s show thesis using wake by (simp split: if_splits)
  next
    case C_woken
    with s show thesis using close by simp
  next
    case C_closed
    with s show thesis by simp
  qed
qed

section \<open>The invariants hold\<close>

lemma unspawned_update:
  "i < length ts \<Longrightarrow> \<not> unspawned pc \<Longrightarrow> \<not> unspawned (ts ! i) \<Longrightarrow>
   (\<forall>x \<in> set (ts[i := pc]). \<not> unspawned x) = (\<forall>x \<in> set ts. \<not> unspawned x)"
  by (metis in_set_conv_nth length_list_update nth_list_update_eq nth_list_update_neq)

lemma inv_shape_init: "inv_shape t (init t h)"
  by (simp add: inv_shape_def init_def)

lemma inv_shape_main:
  assumes "step t Main st = Some st'" and "inv_shape t st"
  shows "inv_shape t st'"
  using assms
proof (cases rule: step_main_cases)
  case (dispatch i)
  with assms(2) show ?thesis
    by (auto simp: inv_shape_def nth_list_update)
next
  case (spawn_closer i)
  with assms(2) show ?thesis
    by (auto simp: inv_shape_def all_spawned_def in_set_conv_nth)
next
  case (outer_next msg role roles)
  with assms(2) show ?thesis
    by (auto simp: inv_shape_def all_spawned_def)
next
  case (inner_done msg role roles)
  with assms(2) show ?thesis
    by (auto simp: inv_shape_def all_spawned_def)
next
  case (inner_skip msg role watchType ws roles)
  with assms(2) show ?thesis
    by (auto simp: inv_shape_def all_spawned_def)
next
  case (inner_add msg role ws roles)
  with assms(2) show ?thesis
    by (auto simp: inv_shape_def all_spawned_def)
qed (use assms(2) in \<open>auto simp: inv_shape_def all_spawned_def\<close>)

lemma inv_shape_worker:
  assumes "step t (Worker i) st = Some st'" and "inv_shape t st"
  shows "inv_shape t st'"
  using assms
proof (cases rule: step_worker_cases)
  case read
  with assms(2) show ?thesis
    by (auto simp: inv_shape_def all_spawned_def unspawned_update nth_list_update split: main_pc.splits)
next
  case (fail c msg err h' calls)
  with assms(2) show ?thesis
    by (auto simp: inv_shape_def all_spawned_def unspawned_update nth_list_update split: main_pc.splits)
next
  case (run c msg h' calls)
  with assms(2) show ?thesis
    by (auto simp: inv_shape_def all_spawned_def unspawned_update nth_list_update split: main_pc.splits)
next
  case (add msg)
  with assms(2) show ?thesis
    by (auto simp: inv_shape_def all_spawned_def unspawned_update nth_list_update split: main_pc.splits)
next
  case (print msg err)
  with assms(2) show ?thesis
    by (auto simp: inv_shape_def all_spawned_def unspawned_update nth_list_update split: main_pc.splits)
next
  case (send msg)
  with assms(2) show ?thesis
    by (auto simp: inv_shape_def all_spawned_def unspawned_update nth_list_update split: main_pc.splits)
next
  case (finish msg err)
  with assms(2) show ?thesis
    by (auto simp: inv_shape_def all_spawned_def unspawned_update nth_list_update split: main_pc.splits)
qed

lemma inv_shape_closer:
  assumes "step t Closer st = Some st'" and "inv_shape t st"
  shows "inv_shape t st'"
  using assms
  by (cases rule: step_closer_cases)
     (auto simp: inv_shape_def all_spawned_def split: main_pc.splits)

lemma inv_shape_step:
  "step t th st = Some st' \<Longrightarrow> inv_shape t st \<Longrightarrow> inv_shape t st'"
  by (cases th) (auto intro: inv_shape_main inv_shape_worker inv_shape_closer)

lemma sum_list_map_update:
  fixes f :: "'a \<Rightarrow> 'b::comm_monoid_add"
  shows "i < length xs \<Longrightarrow> sum_list (map f (xs[i := y])) + f (xs ! i) = sum_list (map f xs) + f y"
proof (induction xs arbitrary: i)
  case Nil
  then show ?case by simp
next
  case (Cons x xs)
  show ?case
  proof (cases i)
    case 0
    then show ?thesis by (simp add: ac_simps)
  next
    case (Suc j)
    with Cons.prems have "j < length xs" by simp
    from Cons.IH [OF this] Suc show ?thesis
      by (simp add: add.assoc)
  qed
qed

lemma active_zero_all:
  "sum_list (map active ts) = 0 \<Longrightarrow> \<forall>pc \<in> set ts. \<not> unspawned pc \<Longrightarrow> \<forall>pc \<in> set ts. finished pc"
proof (induction ts)
  case Nil
  then show ?case by simp
next
  case (Cons pc ts)
  then show ?case by (cases pc) auto
qed

lemma finished_no_step:
  assumes "step t (Worker i) st = Some st'" and "\<forall>pc \<in> set (tasks st). finished pc"
  shows False
proof -
  from assms(1) have "i < length (tasks st) \<and> \<not> finished (tasks st ! i)"
    by (cases rule: step_worker_cases) simp_all
  with assms(2) show False
    using nth_mem by blast
qed

lemma sum_active_update_same:
  "i < length ts \<Longrightarrow> active (ts ! i) = active pc \<Longrightarrow>
   sum_list (map active (ts[i := pc])) = sum_list (map active ts)"
  using sum_list_map_update [of i ts active pc] by simp

lemma sum_active_update_finish:
  "i < length ts \<Longrightarrow> active (ts ! i) = 1 \<Longrightarrow> active pc = 0 \<Longrightarrow>
   sum_list (map active ts) = sum_list (map active (ts[i := pc])) + 1"
  using sum_list_map_update [of i ts active pc] by simp

lemma inv_wg_init: "inv_wg (init t h)"
  by (simp add: inv_wg_def init_def)

lemma sum_active_replicate [simp]: "sum_list (map active (replicate n T_unspawned)) = 0"
  by (induction n) simp_all

lemma inv_wg_main:
  assumes "step t Main st = Some st'" and "inv_wg st" and "inv_shape t st"
  shows "inv_wg st'"
  using assms(1)
proof (cases rule: step_main_cases)
  case (dispatch i)
  from assms(3) dispatch have i: "i < length (tasks st)" and u: "unspawned (tasks st ! i)"
    by (auto simp: inv_shape_def)
  from u have "active (tasks st ! i) = 0" by (cases "tasks st ! i") auto
  with sum_list_map_update [OF i, of active T_spawned]
  have "sum_list (map active ((tasks st)[i := T_spawned])) = sum_list (map active (tasks st)) + 1"
    by simp
  with assms(2,3) dispatch show ?thesis
    by (auto simp: inv_wg_def inv_shape_def)
qed (use assms(2,3) in \<open>auto simp: inv_wg_def inv_shape_def\<close>)

lemma inv_wg_worker:
  assumes "step t (Worker i) st = Some st'" and "inv_wg st"
  shows "inv_wg st'"
proof -
  have nf: "\<not> (\<forall>pc \<in> set (tasks st). finished pc)"
    using finished_no_step [OF assms(1)] by blast
  with assms(2) have c: "closer st \<noteq> C_woken" "closer st \<noteq> C_closed"
    by (auto simp: inv_wg_def)
  from assms(1) show ?thesis
  proof (cases rule: step_worker_cases)
    case read
    with assms(2) c show ?thesis
      by (auto simp: inv_wg_def sum_active_update_same)
  next
    case (fail c msg err h' calls)
    with assms(2) c show ?thesis
      by (auto simp: inv_wg_def sum_active_update_same)
  next
    case (run c msg h' calls)
    with assms(2) c show ?thesis
      by (auto simp: inv_wg_def sum_active_update_same)
  next
    case (add msg)
    with assms(2) c show ?thesis
      by (auto simp: inv_wg_def sum_active_update_same)
  next
    case (print msg err)
    with assms(2) c show ?thesis
      by (auto simp: inv_wg_def sum_active_update_same)
  next
    case (send msg)
    with assms(2) c show ?thesis
      by (auto simp: inv_wg_def sum_active_update_same)
  next
    case (finish msg err)
    with assms(2) c show ?thesis
      by (auto simp: inv_wg_def sum_active_update_same dest: sum_active_update_finish [of i "tasks st" "T_finished msg err"])
  qed
qed

lemma inv_wg_closer:
  assumes "step t Closer st = Some st'" and "inv_wg st" and "inv_shape t st"
  shows "inv_wg st'"
  using assms(1)
proof (cases rule: step_closer_cases)
  case wake
  from assms(3) wake have "\<forall>pc \<in> set (tasks st). \<not> unspawned pc"
    by (auto simp: inv_shape_def all_spawned_def split: main_pc.splits)
  with assms(2) wake have "\<forall>pc \<in> set (tasks st). finished pc"
    using active_zero_all [of "tasks st"] by (simp add: inv_wg_def)
  with assms(2) wake show ?thesis
    by (auto simp: inv_wg_def)
next
  case close
  with assms(2) show ?thesis
    by (auto simp: inv_wg_def)
qed

lemma inv_wg_step:
  "step t th st = Some st' \<Longrightarrow> inv_wg st \<Longrightarrow> inv_shape t st \<Longrightarrow> inv_wg st'"
  by (cases th) (auto intro: inv_wg_main inv_wg_worker inv_wg_closer)

lemma sent_msgs_update:
  "i < length ts \<Longrightarrow> sent_msgs (ts[i := pc]) + mset (sent_of (ts ! i)) = sent_msgs ts + mset (sent_of pc)"
  unfolding sent_msgs_def by (rule sum_list_map_update)

lemma sent_msgs_update_same:
  "i < length ts \<Longrightarrow> sent_of (ts ! i) = sent_of pc \<Longrightarrow> sent_msgs (ts[i := pc]) = sent_msgs ts"
  using sent_msgs_update [of i ts pc] by simp

lemma sent_msgs_update_send:
  "i < length ts \<Longrightarrow> sent_of (ts ! i) = [] \<Longrightarrow> sent_msgs (ts[i := pc]) = sent_msgs ts + mset (sent_of pc)"
  using sent_msgs_update [of i ts pc] by simp

lemma sent_msgs_replicate [simp]: "sent_msgs (replicate n T_unspawned) = {#}"
  by (induction n) (simp_all add: sent_msgs_def)

lemma inv_flow_init: "inv_flow (init t h)"
  by (simp add: inv_flow_def init_def)

lemma inv_flow_main:
  assumes "step t Main st = Some st'" and "inv_flow st" and "inv_shape t st"
  shows "inv_flow st'"
  using assms(1)
proof (cases rule: step_main_cases)
  case (dispatch i)
  from assms(3) dispatch have i: "i < length (tasks st)" and u: "unspawned (tasks st ! i)"
    by (auto simp: inv_shape_def)
  from u have "sent_of (tasks st ! i) = sent_of T_spawned"
    by (cases "tasks st ! i") auto
  with i have "sent_msgs ((tasks st)[i := T_spawned]) = sent_msgs (tasks st)"
    by (rule sent_msgs_update_same)
  with assms(2) dispatch show ?thesis
    by (simp add: inv_flow_def)
next
  case (outer_done msg)
  with assms(2) have "mset (results st) + {#msg#} \<subseteq># sent_msgs (tasks st)"
    by (simp add: inv_flow_def)
  then have "mset (results st) \<subseteq># sent_msgs (tasks st)"
    by (metis mset_subset_eq_add_left subset_mset.order_trans)
  with assms(2) outer_done show ?thesis
    by (simp add: inv_flow_def)
qed (use assms(2) in \<open>auto simp: inv_flow_def report_def ac_simps\<close>)

lemma inv_flow_worker:
  assumes "step t (Worker i) st = Some st'" and "inv_flow st"
  shows "inv_flow st'"
  using assms(1)
proof (cases rule: step_worker_cases)
  case (send msg)
  then have "sent_msgs (tasks st') = sent_msgs (tasks st) + {#msg#}"
    by (simp add: sent_msgs_update_send)
  with assms(2) send show ?thesis
    by (simp add: inv_flow_def ac_simps)
next
  case (finish msg err)
  then have "sent_of (tasks st ! i) = sent_of (T_finished msg err)"
    by (cases err) simp_all
  with finish have "sent_msgs (tasks st') = sent_msgs (tasks st)"
    by (simp add: sent_msgs_update_same)
  with assms(2) finish show ?thesis
    by (simp add: inv_flow_def)
qed (use assms(2) in \<open>auto simp: inv_flow_def sent_msgs_update_same\<close>)

lemma inv_flow_closer:
  assumes "step t Closer st = Some st'" and "inv_flow st"
  shows "inv_flow st'"
  using assms
  by (cases rule: step_closer_cases) (auto simp: inv_flow_def)

lemma inv_flow_step:
  "step t th st = Some st' \<Longrightarrow> inv_flow st \<Longrightarrow> inv_shape t st \<Longrightarrow> inv_flow st'"
  by (cases th) (auto intro: inv_flow_main inv_flow_worker inv_flow_closer)

lemma inv_own_init: "inv_own t (init t h)"
  by (simp add: inv_own_def init_def)

lemma nth_update_if:
  "j < length ts \<Longrightarrow> ts[i := pc] ! j = (if i = j then pc else ts ! j)"
  by (cases "i = j") simp_all

lemma inv_own_update:
  assumes "inv_own t st" and "i < length (tasks st)"
    and "\<And>msg err. result_of pc = Some (msg, err) \<Longrightarrow> Act_outcome (Roles t ! i) msg err"
  shows "inv_own t (st\<lparr>tasks := (tasks st)[i := pc]\<rparr>)"
  using assms by (auto simp: inv_own_def nth_list_update)

lemma inv_own_worker:
  assumes "step t (Worker i) st = Some st'" and "inv_own t st"
  shows "inv_own t st'"
  using assms(1)
proof (cases rule: step_worker_cases)
  case (fail c msg err h' calls)
  then show ?thesis
    using assms(2) by (auto simp: inv_own_def nth_list_update Act_outcome_def)
next
  case (run c msg h' calls)
  then show ?thesis
    using assms(2) by (auto simp: inv_own_def nth_list_update Act_outcome_def)
qed (use assms(2) in \<open>auto simp: inv_own_def nth_list_update\<close>)

lemma inv_own_main:
  assumes "step t Main st = Some st'" and "inv_own t st"
  shows "inv_own t st'"
  using assms
  by (cases rule: step_main_cases) (auto simp: inv_own_def nth_update_if)

lemma inv_own_closer:
  assumes "step t Closer st = Some st'" and "inv_own t st"
  shows "inv_own t st'"
  using assms
  by (cases rule: step_closer_cases) (auto simp: inv_own_def)

lemma inv_own_step:
  "step t th st = Some st' \<Longrightarrow> inv_own t st \<Longrightarrow> inv_own t st'"
  by (cases th) (auto intro: inv_own_main inv_own_worker inv_own_closer)

lemma Add_at_history:
  "history (Add_at h p msg a) = history (h a) @ (if a = p then [msg] else [])"
  by (simp add: Add_at_def Add_def)

lemma seed_history:
  "history (seed msg roles h a) = history (h a) @ replicate (count_list (map Memory roles) a) msg"
proof (induction roles arbitrary: h)
  case Nil
  then show ?case by simp
next
  case (Cons r roles)
  then show ?case
    by (simp add: Add_at_history replicate_app_Cons_same)
qed

lemma deliver_watch_history:
  "history (deliver_watch msg r ws h a) =
     history (h a) @ (if a = Memory r then replicate (count_list ws (CauseBy msg)) msg else [])"
proof (induction ws arbitrary: h)
  case Nil
  then show ?case by simp
next
  case (Cons w ws)
  then show ?case
    by (simp add: Add_at_history replicate_app_Cons_same)
qed

lemma deliver_history:
  "history (deliver msg roles h a) = history (h a) @ replicate (copies roles a msg) msg"
proof (induction roles arbitrary: h)
  case Nil
  then show ?case by (simp add: copies_def)
next
  case (Cons r roles)
  then show ?case
    by (auto simp: copies_def deliver_watch_history replicate_add)
qed

lemma zip_sum_update:
  fixes f :: "'a \<times> 'b \<Rightarrow> 'c::comm_monoid_add"
  assumes "i < length ts" and "length rs = length ts"
  shows "(\<Sum>x\<leftarrow>zip rs (ts[i := pc]). f x) + f (rs ! i, ts ! i) = (\<Sum>x\<leftarrow>zip rs ts. f x) + f (rs ! i, pc)"
proof -
  have "zip rs (ts[i := pc]) = (zip rs ts)[i := (rs ! i, pc)]"
    by (metis fst_conv list_update_id snd_conv update_zip)
  moreover have "i < length (zip rs ts)" "zip rs ts ! i = (rs ! i, ts ! i)"
    using assms by simp_all
  ultimately show ?thesis
    using sum_list_map_update [of i "zip rs ts" f "(rs ! i, pc)"] by simp
qed

lemma contrib_sum_update:
  assumes "i < length (tasks st)" and "length (tasks st) = length (Roles t)"
  shows "(\<Sum>x\<leftarrow>zip (Roles t) ((tasks st)[i := pc]). contrib t a x) + contrib t a (Roles t ! i, tasks st ! i)
       = (\<Sum>x\<leftarrow>zip (Roles t) (tasks st). contrib t a x) + contrib t a (Roles t ! i, pc)"
  using assms by (intro zip_sum_update) simp_all

lemma contrib_sum_update_same:
  assumes "i < length (tasks st)" and "length (tasks st) = length (Roles t)"
    and "added_of (tasks st ! i) = added_of pc" and "sent_of (tasks st ! i) = sent_of pc"
  shows "(\<Sum>x\<leftarrow>zip (Roles t) ((tasks st)[i := pc]). contrib t a x)
       = (\<Sum>x\<leftarrow>zip (Roles t) (tasks st). contrib t a x)"
proof -
  have "contrib t a (Roles t ! i, tasks st ! i) = contrib t a (Roles t ! i, pc)"
    using assms(3,4) by (simp add: contrib_def)
  with contrib_sum_update [OF assms(1,2), where pc = pc and a = a] show ?thesis
    by simp
qed

lemma contrib_sum_replicate [simp]:
  "(\<Sum>x\<leftarrow>zip rs (replicate n T_unspawned). contrib t a x) = {#}"
proof (induction n arbitrary: rs)
  case 0
  then show ?case by simp
next
  case (Suc n)
  then show ?case by (cases rs) (simp_all add: contrib_def)
qed

lemma inv_mem_init: "inv_mem t h (init t h)"
  by (simp add: inv_mem_def init_def)

lemma replicate_mset_plus: "replicate_mset (m + n) x = replicate_mset m x + replicate_mset n x"
  by (induction m) simp_all

lemma delivered_Nil [simp]: "delivered [] a msg = {#}"
  by (simp add: delivered_def copies_def)

lemma delivered_Cons:
  "delivered (r # roles) a msg =
     (if Memory r = a then replicate_mset (count_list (WatchList r) (CauseBy msg)) msg else {#})
     + delivered roles a msg"
  by (simp add: delivered_def copies_def replicate_mset_plus)

lemma inv_memI:
  assumes "\<And>a. mset (history (mem st a)) + pending t (main st) a
            + (\<Sum>m\<leftarrow>results st. delivered (Roles t) a m)
          = mset (history (seed (userReq t) (Roles t) h a))
            + (\<Sum>x\<leftarrow>zip (Roles t) (tasks st). contrib t a x)"
  shows "inv_mem t h st"
  using assms by (simp add: inv_mem_def)

lemma inv_memD:
  assumes "inv_mem t h st"
  shows "mset (history (mem st a)) + pending t (main st) a
            + (\<Sum>m\<leftarrow>results st. delivered (Roles t) a m)
          = mset (history (seed (userReq t) (Roles t) h a))
            + (\<Sum>x\<leftarrow>zip (Roles t) (tasks st). contrib t a x)"
  using assms by (simp add: inv_mem_def)

lemma contrib_simps:
  "contrib t a (r, T_unspawned) = {#}"
  "contrib t a (r, T_spawned) = {#}"
  "contrib t a (r, T_context c) = {#}"
  "contrib t a (r, T_ran msg) = {#}"
  "contrib t a (r, T_acted msg (Some e)) = {#}"
  "contrib t a (r, T_deferred msg (Some e)) = {#}"
  "contrib t a (r, T_finished msg (Some e)) = {#}"
  "contrib t a (r, T_acted msg None) = (if Memory r = a then {#msg#} else {#})"
  "contrib t a (r, T_deferred msg None) =
     (if Memory r = a then {#msg#} else {#}) + delivered (Roles t) a msg"
  "contrib t a (r, T_finished msg None) =
     (if Memory r = a then {#msg#} else {#}) + delivered (Roles t) a msg"
  by (simp_all add: contrib_def)

lemma inv_mem_main:
  assumes "step t Main st = Some st'" and "inv_mem t h st" and "inv_shape t st"
  shows "inv_mem t h st'"
proof -
  note eq = inv_memD [OF assms(2)]
  from assms(1) show ?thesis
  proof (cases rule: step_main_cases)
    case (dispatch i)
    from assms(3) dispatch have i: "i < length (tasks st)" "length (tasks st) = length (Roles t)"
      and u: "unspawned (tasks st ! i)"
      by (auto simp: inv_shape_def)
    from u have "added_of (tasks st ! i) = added_of T_spawned" "sent_of (tasks st ! i) = sent_of T_spawned"
      by (cases "tasks st ! i"; simp)+
    with i have same: "(\<Sum>x\<leftarrow>zip (Roles t) ((tasks st)[i := T_spawned]). contrib t a x)
       = (\<Sum>x\<leftarrow>zip (Roles t) (tasks st). contrib t a x)" for a
      by (rule contrib_sum_update_same)
    show ?thesis
      apply (rule inv_memI)
      subgoal for a using dispatch same [of a] eq [of a] by simp
      done
  next
    case (spawn_closer i)
    show ?thesis
      apply (rule inv_memI)
      subgoal for a using spawn_closer eq [of a] by simp
      done
  next
    case (receive msg rest)
    show ?thesis
      apply (rule inv_memI)
      subgoal for a using receive eq [of a] by (simp add: ac_simps)
      done
  next
    case return
    show ?thesis
      apply (rule inv_memI)
      subgoal for a using return eq [of a] by simp
      done
  next
    case (print msg)
    show ?thesis
      apply (rule inv_memI)
      subgoal for a using print eq [of a] by simp
      done
  next
    case (outer_done msg)
    show ?thesis
      apply (rule inv_memI)
      subgoal for a using outer_done eq [of a] by simp
      done
  next
    case (outer_next msg role roles)
    show ?thesis
      apply (rule inv_memI)
      subgoal for a using outer_next eq [of a]
        by (cases "Memory role = a") (simp_all add: delivered_Cons Add_at_history)
      done
  next
    case (inner_done msg role roles)
    show ?thesis
      apply (rule inv_memI)
      subgoal for a using inner_done eq [of a]
        by (cases "Memory role = a") (simp_all add: delivered_Cons Add_at_history)
      done
  next
    case (inner_skip msg role watchType ws roles)
    show ?thesis
      apply (rule inv_memI)
      subgoal for a using inner_skip eq [of a]
        by (cases "Memory role = a") (simp_all add: delivered_Cons Add_at_history)
      done
  next
    case (inner_add msg role ws roles)
    show ?thesis
      apply (rule inv_memI)
      subgoal for a using inner_add eq [of a]
        by (cases "Memory role = a") (simp_all add: delivered_Cons Add_at_history)
      done
  qed
qed

lemma inv_mem_worker:
  assumes "step t (Worker i) st = Some st'" and "inv_mem t h st" and "inv_shape t st"
  shows "inv_mem t h st'"
proof -
  note eq = inv_memD [OF assms(2)]
  from assms(3) have len: "length (tasks st) = length (Roles t)"
    by (simp add: inv_shape_def)
  have upd: "(\<Sum>x\<leftarrow>zip (Roles t) ((tasks st)[i := pc]). contrib t a x) + contrib t a (Roles t ! i, tasks st ! i)
       = (\<Sum>x\<leftarrow>zip (Roles t) (tasks st). contrib t a x) + contrib t a (Roles t ! i, pc)"
    if "i < length (tasks st)" for pc a
    using that len by (rule contrib_sum_update)
  from assms(1) show ?thesis
  proof (cases rule: step_worker_cases)
    case read
    show ?thesis
      apply (rule inv_memI)
      subgoal for a
        using read upd [OF read(2), where a = a] eq [of a] by (simp add: contrib_simps)
      done
  next
    case (fail c msg err h' calls)
    show ?thesis
      apply (rule inv_memI)
      subgoal for a
        using fail upd [OF fail(2), where a = a and pc = "T_acted msg (Some err)"] eq [of a] by (simp add: contrib_simps)
      done
  next
    case (run c msg h' calls)
    show ?thesis
      apply (rule inv_memI)
      subgoal for a
        using run upd [OF run(2), where a = a and pc = "T_ran msg"] eq [of a] by (simp add: contrib_simps)
      done
  next
    case (add msg)
    show ?thesis
      apply (rule inv_memI)
      subgoal for a
        using add upd [OF add(2), where a = a and pc = "T_acted msg None"] eq [of a]
        by (cases "Memory (Roles t ! i) = a") (simp_all add: contrib_simps Add_at_history)
      done
  next
    case (print msg err)
    show ?thesis
      apply (rule inv_memI)
      subgoal for a
        using print upd [OF print(2), where a = a and pc = "T_deferred msg (Some err)"] eq [of a]
        by (simp add: contrib_simps)
      done
  next
    case (send msg)
    show ?thesis
      apply (rule inv_memI)
      subgoal for a
        using send upd [OF send(2), where a = a and pc = "T_deferred msg None"] eq [of a]
        by (cases "Memory (Roles t ! i) = a") (simp_all add: contrib_simps ac_simps)
      done
  next
    case (finish msg err)
    show ?thesis
      apply (rule inv_memI)
      subgoal for a
        using finish upd [OF finish(2), where a = a and pc = "T_finished msg err"] eq [of a]
        by (cases err; cases "Memory (Roles t ! i) = a") (simp_all add: contrib_simps)
      done
  qed
qed

lemma inv_mem_closer:
  assumes "step t Closer st = Some st'" and "inv_mem t h st"
  shows "inv_mem t h st'"
  using assms
  by (cases rule: step_closer_cases) (auto simp: inv_mem_def)

lemma inv_mem_step:
  "step t th st = Some st' \<Longrightarrow> inv_mem t h st \<Longrightarrow> inv_shape t st \<Longrightarrow> inv_mem t h st'"
  by (cases th) (auto intro: inv_mem_main inv_mem_worker inv_mem_closer)

lemma inv_prefix_init: "inv_prefix t h (init t h)"
  by (simp add: inv_prefix_def init_def)

lemma inv_prefix_Add_at:
  assumes "inv_prefix t h st"
  shows "inv_prefix t h (st\<lparr>mem := Add_at (mem st) p msg\<rparr>)"
  unfolding inv_prefix_def
proof
  fix a
  from assms obtain ys where "history (mem st a) = history (seed (userReq t) (Roles t) h a) @ ys"
    by (auto simp: inv_prefix_def)
  then show "\<exists>ys. history (mem (st\<lparr>mem := Add_at (mem st) p msg\<rparr>) a)
      = history (seed (userReq t) (Roles t) h a) @ ys"
    by (simp add: Add_at_history)
qed

lemma inv_prefix_mem_eq:
  "inv_prefix t h st \<Longrightarrow> mem st' = mem st \<Longrightarrow> inv_prefix t h st'"
  by (simp add: inv_prefix_def)

lemma inv_prefix_step:
  assumes "step t th st = Some st'" and "inv_prefix t h st"
  shows "inv_prefix t h st'"
proof (cases th)
  case Main
  with assms(1) have "step t Main st = Some st'" by simp
  then show ?thesis
  proof (cases rule: step_main_cases)
    case (inner_add msg role ws roles)
    have "st' = (st\<lparr>mem := Add_at (mem st) (Memory role) msg\<rparr>)\<lparr>main := M_inner msg role ws roles\<rparr>"
      using inner_add by simp
    then show ?thesis
      using inv_prefix_Add_at [OF assms(2), of "Memory role" msg]
      by (auto intro: inv_prefix_mem_eq)
  qed (auto intro: inv_prefix_mem_eq [OF assms(2)])
next
  case (Worker i)
  with assms(1) have "step t (Worker i) st = Some st'" by simp
  then show ?thesis
  proof (cases rule: step_worker_cases)
    case (add msg)
    have "st' = (st\<lparr>mem := Add_at (mem st) (Memory (Roles t ! i)) msg\<rparr>)\<lparr>tasks := (tasks st)[i := T_acted msg None]\<rparr>"
      using add by simp
    then show ?thesis
      using inv_prefix_Add_at [OF assms(2), of "Memory (Roles t ! i)" msg]
      by (auto intro: inv_prefix_mem_eq)
  qed (auto intro: inv_prefix_mem_eq [OF assms(2)])
next
  case Closer
  with assms(1) have "step t Closer st = Some st'" by simp
  then show ?thesis
    by (cases rule: step_closer_cases) (auto intro: inv_prefix_mem_eq [OF assms(2)])
qed

lemma inv_ret_init: "inv_ret (init t h)"
  by (simp add: inv_ret_def init_def)

lemma inv_ret_step:
  assumes "step t th st = Some st'" and "inv_ret st" and "inv_wg st"
  shows "inv_ret st'"
proof (cases th)
  case Main
  with assms(1) have "step t Main st = Some st'" by simp
  then show ?thesis
    by (cases rule: step_main_cases) (use assms(2) in \<open>auto simp: inv_ret_def\<close>)
next
  case (Worker i)
  with assms(1) have s: "step t (Worker i) st = Some st'" by simp
  have "main st \<noteq> M_returned"
  proof
    assume "main st = M_returned"
    with assms(2,3) have "\<forall>pc \<in> set (tasks st). finished pc"
      by (simp add: inv_ret_def inv_wg_def)
    with s show False by (rule finished_no_step)
  qed
  moreover from s have "main st' = main st"
    by (cases rule: step_worker_cases) simp_all
  ultimately show ?thesis
    by (simp add: inv_ret_def)
next
  case Closer
  with assms(1) have "step t Closer st = Some st'" by simp
  then show ?thesis
    by (cases rule: step_closer_cases) (use assms(2) in \<open>auto simp: inv_ret_def\<close>)
qed

lemma inv_init: "invariant t h (init t h)"
  by (simp add: invariant_def inv_shape_init inv_wg_init inv_flow_init inv_own_init inv_mem_init
      inv_prefix_init inv_ret_init)

lemma inv_step: "step t th st = Some st' \<Longrightarrow> invariant t h st \<Longrightarrow> invariant t h st'"
  by (simp add: invariant_def inv_shape_step inv_wg_step inv_flow_step inv_own_step inv_mem_step
      inv_prefix_step inv_ret_step)

lemma inv_exec: "exec t sched st = Some st' \<Longrightarrow> invariant t h st \<Longrightarrow> invariant t h st'"
proof (induction sched arbitrary: st)
  case Nil
  then show ?case by simp
next
  case (Cons th sched)
  then show ?case
    by (auto split: option.splits dest: inv_step)
qed

lemma inv_RunProject: "RunProject t h sched = Some st \<Longrightarrow> invariant t h st"
  unfolding RunProject_def using inv_init by (rule inv_exec [rotated])

lemma exec_append:
  "exec t (s1 @ s2) st = (case exec t s1 st of None \<Rightarrow> None | Some st' \<Rightarrow> exec t s2 st')"
  by (induction s1 arbitrary: st) (auto split: option.splits)

section \<open>The delivery loops of main\<close>

text \<open>
  The steps of the main goroutine through the inner loop (lines 236-240) and through
  the outer loop (lines 235-241) compute \<open>deliver_watch\<close> and \<open>deliver\<close> when no other
  goroutine moves in between.
\<close>

lemma main_delivers_inner:
  "main st = M_inner msg role ws roles \<Longrightarrow>
   \<exists>k. exec t (replicate k Main) st =
     Some (st\<lparr>mem := deliver_watch msg role ws (mem st), main := M_outer msg roles\<rparr>)"
proof (induction ws arbitrary: st)
  case Nil
  have "exec t (replicate 1 Main) st =
      Some (st\<lparr>mem := deliver_watch msg role [] (mem st), main := M_outer msg roles\<rparr>)"
    using Nil by simp
  then show ?case by blast
next
  case (Cons w ws)
  let ?st1 = "if w = CauseBy msg
     then st\<lparr>mem := Add_at (mem st) (Memory role) msg, main := M_inner msg role ws roles\<rparr>
     else st\<lparr>main := M_inner msg role ws roles\<rparr>"
  have s: "step t Main st = Some ?st1" using Cons.prems by simp
  have "main ?st1 = M_inner msg role ws roles" by simp
  from Cons.IH[OF this] obtain k where
    k: "exec t (replicate k Main) ?st1 =
      Some (?st1\<lparr>mem := deliver_watch msg role ws (mem ?st1), main := M_outer msg roles\<rparr>)"
    by blast
  have "exec t (replicate (Suc k) Main) st =
     Some (st\<lparr>mem := deliver_watch msg role (w # ws) (mem st), main := M_outer msg roles\<rparr>)"
    using s k by (simp split: if_splits)
  then show ?case by blast
qed

lemma main_delivers:
  "main st = M_outer msg roles \<Longrightarrow>
   \<exists>k. exec t (replicate k Main) st =
     Some (st\<lparr>mem := deliver msg roles (mem st), main := M_range\<rparr>)"
proof (induction roles arbitrary: st)
  case Nil
  have "exec t (replicate 1 Main) st =
      Some (st\<lparr>mem := deliver msg [] (mem st), main := M_range\<rparr>)"
    using Nil by simp
  then show ?case by blast
next
  case (Cons role roles)
  let ?st1 = "st\<lparr>main := M_inner msg role (WatchList role) roles\<rparr>"
  let ?st2 = "?st1\<lparr>mem := deliver_watch msg role (WatchList role) (mem ?st1),
                   main := M_outer msg roles\<rparr>"
  have s1: "step t Main st = Some ?st1" using Cons.prems by simp
  obtain k where k: "exec t (replicate k Main) ?st1 = Some ?st2"
    using main_delivers_inner [of ?st1 msg role "WatchList role" roles t] by auto
  obtain k' where k': "exec t (replicate k' Main) ?st2 =
      Some (?st2\<lparr>mem := deliver msg roles (mem ?st2), main := M_range\<rparr>)"
    using Cons.IH [of ?st2] by auto
  have "exec t (replicate (Suc k + k') Main) st =
      Some (st\<lparr>mem := deliver msg (role # roles) (mem st), main := M_range\<rparr>)"
    unfolding replicate_add exec_append using s1 k k' by simp
  then show ?case by blast
qed

section \<open>Every run can be completed\<close>

lemma loop_cost_Cons: "loop_cost (r # roles) = 2 + length (WatchList r) + loop_cost roles"
  by (simp add: loop_cost_def)

lemma task_rem_update:
  "i < length ts \<Longrightarrow>
   (\<Sum>pc\<leftarrow>ts[i := pc']. task_rem K pc) + task_rem K (ts ! i) = (\<Sum>pc\<leftarrow>ts. task_rem K pc) + task_rem K pc'"
  by (rule sum_list_map_update)

lemma steps_left_main:
  assumes "step t Main st = Some st'" and "inv_shape t st"
  shows "steps_left t st' < steps_left t st"
  using assms(1)
proof (cases rule: step_main_cases)
  case (dispatch i)
  from assms(2) dispatch have i: "i < length (tasks st)" and u: "unspawned (tasks st ! i)"
    by (auto simp: inv_shape_def)
  from u have "task_rem K (tasks st ! i) = task_rem K T_spawned" for K
    by (cases "tasks st ! i") auto
  with task_rem_update [OF i, where pc' = T_spawned]
  have "(\<Sum>pc\<leftarrow>(tasks st)[i := T_spawned]. task_rem K pc) = (\<Sum>pc\<leftarrow>tasks st. task_rem K pc)" for K
    by simp
  with dispatch show ?thesis
    by (simp add: steps_left_def)
qed (use assms(2) in \<open>auto simp: steps_left_def loop_cost_Cons inv_shape_def\<close>)

lemma steps_left_worker:
  assumes "step t (Worker i) st = Some st'"
  shows "steps_left t st' < steps_left t st"
  using assms(1)
proof (cases rule: step_worker_cases)
  case read
  with task_rem_update [OF read(2), where K = "loop_cost (Roles t) + 3"
      and pc' = "T_context (contextData_of (GetRecent (mem st (Memory (Roles t ! i)))))"]
  show ?thesis
    by (simp add: steps_left_def)
next
  case (fail c msg err h' calls)
  with task_rem_update [OF fail(2), where pc' = "T_acted msg (Some err)" and K = "loop_cost (Roles t) + 3"] show ?thesis
    by (simp add: steps_left_def)
next
  case (run c msg h' calls)
  with task_rem_update [OF run(2), where pc' = "T_ran msg" and K = "loop_cost (Roles t) + 3"] show ?thesis
    by (simp add: steps_left_def)
next
  case (add msg)
  with task_rem_update [OF add(2), where pc' = "T_acted msg None" and K = "loop_cost (Roles t) + 3"] show ?thesis
    by (simp add: steps_left_def)
next
  case (print msg err)
  with task_rem_update [OF print(2), where pc' = "T_deferred msg (Some err)" and K = "loop_cost (Roles t) + 3"] show ?thesis
    by (simp add: steps_left_def)
next
  case (send msg)
  with task_rem_update [OF send(2), where pc' = "T_deferred msg None" and K = "loop_cost (Roles t) + 3"] show ?thesis
    by (simp add: steps_left_def)
next
  case (finish msg err)
  with task_rem_update [OF finish(2), where pc' = "T_finished msg err" and K = "loop_cost (Roles t) + 3"] show ?thesis
    by (simp add: steps_left_def)
qed

lemma steps_left_closer:
  assumes "step t Closer st = Some st'"
  shows "steps_left t st' < steps_left t st"
  using assms
  by (cases rule: step_closer_cases) (auto simp: steps_left_def)

lemma steps_left_step:
  "step t th st = Some st' \<Longrightarrow> inv_shape t st \<Longrightarrow> steps_left t st' < steps_left t st"
  by (cases th) (auto intro: steps_left_main steps_left_worker steps_left_closer)

lemma active_pos_nth:
  "0 < sum_list (map active ts) \<Longrightarrow> \<exists>i < length ts. active (ts ! i) = 1"
proof (induction ts)
  case Nil
  then show ?case by simp
next
  case (Cons pc ts)
  show ?case
  proof (cases "active pc = 1")
    case True
    then show ?thesis by auto
  next
    case False
    then have "active pc = 0" by (cases pc) auto
    with Cons obtain i where "i < length ts" "active (ts ! i) = 1" by auto
    then have "Suc i < length (pc # ts) \<and> active ((pc # ts) ! Suc i) = 1" by simp
    then show ?thesis by blast
  qed
qed

lemma worker_enabled:
  assumes "i < length (Roles t)" and "i < length (tasks st)" and "active (tasks st ! i) = 1"
    and "0 < wg st" and "length (results st) < length (Roles t)"
  shows "\<exists>st'. step t (Worker i) st = Some st'"
proof (cases "tasks st ! i")
  case (T_context c)
  obtain msg err h' calls where
    "Act_loop (Roles t ! i) c (Actions (Roles t ! i)) (mem st) = (msg, err, h', calls)"
    using prod_cases4 by blast
  with assms T_context show ?thesis
    by (cases err) simp_all
next
  case (T_acted msg err)
  with assms show ?thesis
    by (cases err) simp_all
qed (use assms in simp_all)

text \<open>No deadlock: until \<open>RunProject\<close> has returned, some goroutine can move.\<close>

lemma enabled:
  assumes "invariant t h st" and "main st \<noteq> M_returned"
  shows "\<exists>th st'. step t th st = Some st'"
proof -
  from assms(1) have sh: "inv_shape t st" and w: "inv_wg st"
    by (simp_all add: invariant_def)
  have main_moves: "\<exists>st'. step t Main st = Some st'"
    if "main st \<noteq> M_range \<or> results st \<noteq> [] \<or> closed st"
  proof (cases "main st")
    case M_range
    with that show ?thesis
      by (cases "results st") auto
  next
    case (M_outer msg rem)
    then show ?thesis by (cases rem) auto
  next
    case (M_inner msg r ws rem)
    then show ?thesis by (cases ws) auto
  qed (use assms(2) in auto)
  show ?thesis
  proof (cases "main st \<noteq> M_range \<or> results st \<noteq> [] \<or> closed st")
    case True
    then show ?thesis using main_moves by blast
  next
    case False
    then have m: "main st = M_range" and r: "results st = []" and c: "\<not> closed st"
      by auto
    from sh m have sp: "\<forall>pc \<in> set (tasks st). \<not> unspawned pc" "closer st \<noteq> C_unspawned"
      and len: "length (tasks st) = length (Roles t)"
      by (auto simp: inv_shape_def all_spawned_def)
    from w c have nc: "closer st \<noteq> C_closed"
      by (simp add: inv_wg_def)
    show ?thesis
    proof (cases "closer st = C_woken \<or> wg st = 0")
      case True
      with sp nc have "\<exists>st'. step t Closer st = Some st'"
        by (cases "closer st") auto
      then show ?thesis by blast
    next
      case False
      moreover from w have "wg st = sum_list (map active (tasks st))"
        by (simp add: inv_wg_def)
      ultimately have "0 < sum_list (map active (tasks st))"
        by arith
      then obtain i where i: "i < length (tasks st)" "active (tasks st ! i) = 1"
        using active_pos_nth by blast
      with len r False have "\<exists>st'. step t (Worker i) st = Some st'"
        by (intro worker_enabled) auto
      then show ?thesis by blast
    qed
  qed
qed

text \<open>Every state of a run can be continued to one in which \<open>RunProject\<close> has returned.\<close>

lemma completes:
  "invariant t h st \<Longrightarrow> \<exists>sched st'. exec t sched st = Some st' \<and> main st' = M_returned"
proof (induction "steps_left t st" arbitrary: st rule: less_induct)
  case less
  show ?case
  proof (cases "main st = M_returned")
    case True
    then have "exec t [] st = Some st \<and> main st = M_returned" by simp
    then show ?thesis by blast
  next
    case False
    with less.prems obtain th st1 where s: "step t th st = Some st1"
      using enabled by blast
    from less.prems have "inv_shape t st"
      by (simp add: invariant_def)
    with s less.prems have "invariant t h st1" "steps_left t st1 < steps_left t st"
      by (auto intro: inv_step steps_left_step)
    with less.hyps obtain sched st' where "exec t sched st1 = Some st'" "main st' = M_returned"
      by blast
    with s have "exec t (th # sched) st = Some st' \<and> main st' = M_returned" by simp
    then show ?thesis by blast
  qed
qed

lemma steps_left_exec:
  "exec t sched st = Some st' \<Longrightarrow> invariant t h st \<Longrightarrow>
   length sched + steps_left t st' \<le> steps_left t st"
proof (induction sched arbitrary: st)
  case Nil
  then show ?case by simp
next
  case (Cons th sched)
  from Cons.prems obtain st1 where s: "step t th st = Some st1" "exec t sched st1 = Some st'"
    by (auto split: option.splits)
  from Cons.prems have "inv_shape t st"
    by (simp add: invariant_def)
  with s Cons.prems have "invariant t h st1" "steps_left t st1 < steps_left t st"
    by (auto intro: inv_step steps_left_step)
  with Cons.IH [OF s(2)] show ?case by simp
qed

section \<open>The delivery step\<close>

lemma copies_distinct:
  assumes "distinct (map Memory roles)" and "R \<in> set roles"
  shows "copies roles (Memory R) msg = count_list (WatchList R) (CauseBy msg)"
  using assms
proof (induction roles)
  case Nil
  then show ?case by simp
next
  case (Cons r roles)
  show ?case
  proof (cases "R = r")
    case True
    with Cons.prems have "\<forall>r' \<in> set roles. Memory r' \<noteq> Memory r"
      by (metis distinct.simps(2) image_eqI list.simps(9) set_map)
    then have "copies roles (Memory r) msg = 0"
      by (induction roles) (simp_all add: copies_def)
    with True show ?thesis
      by (simp add: copies_def)
  next
    case False
    with Cons.prems have "R \<in> set roles" "Memory r \<noteq> Memory R" "distinct (map Memory roles)"
      by auto
    with Cons.IH show ?thesis
      by (simp add: copies_def)
  qed
qed

lemma copies_ge:
  "r \<in> set roles \<Longrightarrow> count_list (WatchList r) (CauseBy msg) \<le> copies roles (Memory r) msg"
  by (induction roles) (auto simp: copies_def)

lemma copies_pos:
  "0 < copies roles a msg \<Longrightarrow> \<exists>r \<in> set roles. Memory r = a \<and> CauseBy msg \<in> set (WatchList r)"
proof (induction roles)
  case Nil
  then show ?case by (simp add: copies_def)
next
  case (Cons r roles)
  show ?case
  proof (cases "Memory r = a \<and> CauseBy msg \<in> set (WatchList r)")
    case True
    then show ?thesis by auto
  next
    case False
    then have "(if Memory r = a then count_list (WatchList r) (CauseBy msg) else 0) = 0"
      by auto
    with Cons.prems have "0 < copies roles a msg"
      by (simp add: copies_def)
    with Cons.IH show ?thesis by auto
  qed
qed


section \<open>States in which RunProject has returned\<close>

lemma in_sum_list_mset:
  "M \<in># (\<Sum>x\<leftarrow>xs. f x) \<Longrightarrow> \<exists>x \<in> set xs. M \<in># f x"
  by (induction xs) auto

lemma sum_list_mset_member:
  "x \<in> set xs \<Longrightarrow> f x \<subseteq># (\<Sum>x\<leftarrow>xs. f x)"
proof (induction xs)
  case Nil
  then show ?case by simp
next
  case (Cons y xs)
  show ?case
  proof (cases "x = y")
    case True
    then show ?thesis by simp
  next
    case False
    with Cons have "f x \<subseteq># (\<Sum>x\<leftarrow>xs. f x)" by simp
    also have "\<dots> \<subseteq># f y + (\<Sum>x\<leftarrow>xs. f x)"
      by (rule mset_subset_eq_add_right)
    finally show ?thesis by simp
  qed
qed

lemma in_sent_of:
  "msg \<in> set (sent_of pc) \<longleftrightarrow> pc = T_deferred msg None \<or> pc = T_finished msg None"
proof (cases pc)
  case (T_deferred m e)
  then show ?thesis by (cases e) auto
next
  case (T_finished m e)
  then show ?thesis by (cases e) auto
qed auto

lemma in_sent_msgs:
  "msg \<in># sent_msgs ts \<longleftrightarrow>
     (\<exists>i < length ts. ts ! i = T_deferred msg None \<or> ts ! i = T_finished msg None)"
proof
  assume "msg \<in># sent_msgs ts"
  then have "\<exists>pc \<in> set ts. msg \<in># mset (sent_of pc)"
    unfolding sent_msgs_def by (rule in_sum_list_mset)
  then obtain pc where pc: "pc \<in> set ts" "msg \<in> set (sent_of pc)"
    by auto
  from pc(1) obtain i where "i < length ts" "ts ! i = pc"
    by (auto simp: in_set_conv_nth)
  with pc(2) show "\<exists>i < length ts. ts ! i = T_deferred msg None \<or> ts ! i = T_finished msg None"
    by (auto simp: in_sent_of)
next
  assume "\<exists>i < length ts. ts ! i = T_deferred msg None \<or> ts ! i = T_finished msg None"
  then obtain i where i: "i < length ts" "ts ! i = T_deferred msg None \<or> ts ! i = T_finished msg None"
    by blast
  then have "mset (sent_of (ts ! i)) = {#msg#}" by auto
  moreover from i(1) have "ts ! i \<in> set ts" by simp
  then have "mset (sent_of (ts ! i)) \<subseteq># (\<Sum>pc\<leftarrow>ts. mset (sent_of pc))"
    by (rule sum_list_mset_member)
  ultimately have "{#msg#} \<subseteq># sent_msgs ts"
    by (simp add: sent_msgs_def)
  then show "msg \<in># sent_msgs ts"
    by simp
qed

lemma size_sent_msgs:
  "\<forall>pc \<in> set ts. finished pc \<Longrightarrow> size (sent_msgs ts) = length (filter succeeded ts)"
proof (induction ts)
  case Nil
  then show ?case by (simp add: sent_msgs_def)
next
  case (Cons pc ts)
  then have "size (sent_msgs ts) = length (filter succeeded ts)" by simp
  moreover have "size (mset (sent_of pc)) = (if succeeded pc then 1 else 0)"
  proof (cases pc)
    case (T_finished m e)
    then show ?thesis by (cases e) auto
  qed (use Cons.prems in auto)
  ultimately show ?case
    by (simp add: sent_msgs_def)
qed

lemma returned_finished:
  assumes "invariant t h st" and "main st = M_returned"
  shows "\<forall>pc \<in> set (tasks st). finished pc"
proof -
  from assms have "closed st" "inv_wg st"
    by (simp_all add: invariant_def inv_ret_def)
  then show ?thesis
    by (simp add: inv_wg_def)
qed

lemma returned_outputs:
  assumes "invariant t h st" and "main st = M_returned"
  shows "mset (filter is_output (stdout st)) = image_mset report (sent_msgs (tasks st))"
proof -
  from assms have "results st = []" "inv_flow st"
    by (simp_all add: invariant_def inv_ret_def)
  with assms(2) show ?thesis
    by (simp add: inv_flow_def)
qed

lemma returned_mem:
  assumes "invariant t h st" and "main st = M_returned"
  shows "mset (history (mem st a))
       = mset (history (seed (userReq t) (Roles t) h a))
         + (\<Sum>x\<leftarrow>zip (Roles t) (tasks st). contrib t a x)"
proof -
  from assms have "inv_mem t h st" "results st = []"
    by (simp_all add: invariant_def inv_ret_def)
  with inv_memD [of t h st a] assms(2) show ?thesis
    by simp
qed

lemma returned_delivered:
  assumes "invariant t h st" and "main st = M_returned"
    and "i < length (Roles t)" and "tasks st ! i = T_finished msg None" and "r \<in> set (Roles t)"
  shows "(if Memory (Roles t ! i) = Memory r then 1 else 0) + count_list (WatchList r) (CauseBy msg)
       \<le> count_list (history (mem st (Memory r))) msg"
proof -
  from assms(1) have len: "length (tasks st) = length (Roles t)"
    by (simp add: invariant_def inv_shape_def)
  with assms(3) have "(Roles t ! i, tasks st ! i) \<in> set (zip (Roles t) (tasks st))"
    unfolding in_set_zip by (intro exI [of _ i]) simp
  then have "contrib t (Memory r) (Roles t ! i, tasks st ! i)
      \<subseteq># (\<Sum>x\<leftarrow>zip (Roles t) (tasks st). contrib t (Memory r) x)"
    by (rule sum_list_mset_member)
  also have "\<dots> \<subseteq># mset (history (mem st (Memory r)))"
    using returned_mem [OF assms(1,2), of "Memory r"] by simp
  finally have "count (contrib t (Memory r) (Roles t ! i, tasks st ! i)) msg
      \<le> count (mset (history (mem st (Memory r)))) msg"
    by (rule mset_subset_eq_count)
  moreover have "count (contrib t (Memory r) (Roles t ! i, tasks st ! i)) msg
      = (if Memory (Roles t ! i) = Memory r then 1 else 0) + copies (Roles t) (Memory r) msg"
    using assms(4) by (simp add: contrib_def delivered_def)
  moreover have "count_list (WatchList r) (CauseBy msg) \<le> copies (Roles t) (Memory r) msg"
    using assms(5) by (rule copies_ge)
  ultimately show ?thesis
    by (simp add: count_mset)
qed

lemma Act_outcome_None:
  "Act_outcome r msg None \<longleftrightarrow>
     (\<exists>action rest c outp. Actions r = action # rest \<and> Run action c = Inr outp
        \<and> msg = \<lparr>Content = outp, Role = Profile r, CauseBy = Action.Name action\<rparr>)"
proof
  assume "Act_outcome r msg None"
  then obtain c h h' calls where a: "Act_loop r c (Actions r) h = (msg, None, h', calls)"
    by (auto simp: Act_outcome_def)
  show "\<exists>action rest c outp. Actions r = action # rest \<and> Run action c = Inr outp
        \<and> msg = \<lparr>Content = outp, Role = Profile r, CauseBy = Action.Name action\<rparr>"
  proof (cases "Actions r")
    case Nil
    with a show ?thesis by simp
  next
    case (Cons action rest)
    show ?thesis
    proof (cases "Run action c")
      case (Inl err)
      with a Cons show ?thesis by simp
    next
      case (Inr outp)
      with a Cons have "msg = \<lparr>Content = outp, Role = Profile r, CauseBy = Action.Name action\<rparr>"
        by (simp add: Act_loop_Cons_Inr del: Act_loop.simps)
      with Cons Inr show ?thesis by blast
    qed
  qed
next
  assume "\<exists>action rest c outp. Actions r = action # rest \<and> Run action c = Inr outp
        \<and> msg = \<lparr>Content = outp, Role = Profile r, CauseBy = Action.Name action\<rparr>"
  then obtain action rest c outp where "Actions r = action # rest" "Run action c = Inr outp"
    "msg = \<lparr>Content = outp, Role = Profile r, CauseBy = Action.Name action\<rparr>"
    by blast
  then have "Act_loop r c (Actions r) h = (msg, None, Add_at h (Memory r) msg, [(Action.Name action, c)])" for h
    by (simp add: Act_loop_Cons_Inr del: Act_loop.simps)
  then show "Act_outcome r msg None"
    unfolding Act_outcome_def by blast
qed

lemma Act_outcome_Some:
  "Act_outcome r msg (Some e) \<longleftrightarrow>
     msg = Message_zero \<and>
     (Actions r = [] \<and> e = errorString ''no suitable action found''
      \<or> (\<exists>action rest c err. Actions r = action # rest \<and> Run action c = Inl err
            \<and> e = wrapError (Action.Name action @ '' action failed: '' @ Error err) err))"
proof
  assume "Act_outcome r msg (Some e)"
  then obtain c h h' calls where a: "Act_loop r c (Actions r) h = (msg, Some e, h', calls)"
    by (auto simp: Act_outcome_def)
  show "msg = Message_zero \<and>
     (Actions r = [] \<and> e = errorString ''no suitable action found''
      \<or> (\<exists>action rest c err. Actions r = action # rest \<and> Run action c = Inl err
            \<and> e = wrapError (Action.Name action @ '' action failed: '' @ Error err) err))"
  proof (cases "Actions r")
    case Nil
    with a show ?thesis by (simp add: errors_New_def)
  next
    case (Cons action rest)
    show ?thesis
    proof (cases "Run action c")
      case (Inl err)
      with a Cons have "msg = Message_zero"
        "e = wrapError (Action.Name action @ '' action failed: '' @ Error err) err"
        by (simp_all add: Act_loop_Cons_Inl Errorf_action_failed_def del: Act_loop.simps)
      with Cons Inl show ?thesis by blast
    next
      case (Inr outp)
      with a Cons show ?thesis
        by (simp add: Act_loop_Cons_Inr del: Act_loop.simps)
    qed
  qed
next
  assume b: "msg = Message_zero \<and>
     (Actions r = [] \<and> e = errorString ''no suitable action found''
      \<or> (\<exists>action rest c err. Actions r = action # rest \<and> Run action c = Inl err
            \<and> e = wrapError (Action.Name action @ '' action failed: '' @ Error err) err))"
  show "Act_outcome r msg (Some e)"
  proof (cases "Actions r")
    case Nil
    with b have "Act_loop r c (Actions r) h = (msg, Some e, h, [])" for c h
      by (simp add: errors_New_def)
    then show ?thesis
      unfolding Act_outcome_def by blast
  next
    case (Cons action rest)
    with b obtain c err where "Run action c = Inl err"
      "e = wrapError (Action.Name action @ '' action failed: '' @ Error err) err"
      by auto
    with b Cons have "Act_loop r c (Actions r) h = (msg, Some e, h, [(Action.Name action, c)])" for h
      by (simp add: Act_loop_Cons_Inl Errorf_action_failed_def del: Act_loop.simps)
    then show ?thesis
      unfolding Act_outcome_def by blast
  qed
qed

lemma sum_list_mset_empty:
  "(\<And>x. x \<in> set xs \<Longrightarrow> f x = {#}) \<Longrightarrow> (\<Sum>x\<leftarrow>xs. f x) = ({#} :: 'a multiset)"
  by (induction xs) simp_all

lemma distinct_Memory_nth:
  assumes "distinct (map Memory roles)" and "i < length roles" and "j < length roles"
    and "Memory (roles ! j) = Memory (roles ! i)"
  shows "j = i"
proof -
  from assms(2,3,4) have "map Memory roles ! j = map Memory roles ! i" by simp
  with assms(1,2,3) nth_eq_iff_index_eq [of "map Memory roles" j i] show ?thesis
    by simp
qed

lemma distinct_Memory_mem:
  assumes "distinct (map Memory roles)" and "i < length roles" and "r \<in> set roles"
    and "Memory r = Memory (roles ! i)"
  shows "r = roles ! i"
proof -
  from assms(3) obtain j where "j < length roles" "roles ! j = r"
    by (auto simp: in_set_conv_nth)
  with assms distinct_Memory_nth [of roles i j] show ?thesis by auto
qed

lemma in_zip_nth:
  assumes "x \<in> set (zip xs ys)"
  obtains j where "j < length xs" "j < length ys" "x = (xs ! j, ys ! j)"
  using assms by (auto simp: in_set_zip)

text \<open>What a Memory can hold: its old content, seeds, and what the contributions say.\<close>

lemma mem_subset:
  assumes "invariant t h st"
  shows "mset (history (mem st a))
      \<subseteq># mset (history (seed (userReq t) (Roles t) h a))
          + (\<Sum>x\<leftarrow>zip (Roles t) (tasks st). contrib t a x)"
proof -
  from assms have "inv_mem t h st" by (simp add: invariant_def)
  from inv_memD [OF this, of a] show ?thesis
    by (metis mset_subset_eq_add_left union_assoc)
qed

lemma mem_unchanged:
  assumes "invariant t h st"
    and "\<And>x. x \<in> set (zip (Roles t) (tasks st)) \<Longrightarrow> contrib t a x = {#}"
  shows "history (mem st a) = history (seed (userReq t) (Roles t) h a)"
proof -
  from assms(2) have "(\<Sum>x\<leftarrow>zip (Roles t) (tasks st). contrib t a x) = {#}"
    by (rule sum_list_mset_empty)
  with mem_subset [OF assms(1), of a]
  have "mset (history (mem st a)) \<subseteq># mset (history (seed (userReq t) (Roles t) h a))"
    by simp
  then have "length (history (mem st a)) \<le> length (history (seed (userReq t) (Roles t) h a))"
    by (metis size_mset size_mset_mono)
  moreover from assms(1) obtain ys where
    "history (mem st a) = history (seed (userReq t) (Roles t) h a) @ ys"
    by (auto simp: invariant_def inv_prefix_def)
  ultimately show ?thesis by simp
qed

lemma GetRecent_seed:
  assumes "r \<in> set roles" and "history m = history (seed msg roles h (Memory r))"
  shows "GetRecent m = [msg]"
proof -
  from assms(1) have "0 < count_list (map Memory roles) (Memory r)"
    using count_list_0_iff [of "map Memory roles" "Memory r"] by auto
  then obtain n where "count_list (map Memory roles) (Memory r) = Suc n"
    by (cases "count_list (map Memory roles) (Memory r)") auto
  with assms(2) have "history m = (history (h (Memory r)) @ replicate n msg) @ [msg]"
    by (simp add: seed_history replicate_append_same)
  then show ?thesis
    by (simp add: GetRecent_def)
qed

lemma seed_in_mem:
  assumes "invariant t h st" and "r \<in> set (Roles t)"
  shows "userReq t \<in> set (history (mem st (Memory r)))"
proof -
  from assms(1) obtain ys where
    "history (mem st (Memory r)) = history (seed (userReq t) (Roles t) h (Memory r)) @ ys"
    by (auto simp: invariant_def inv_prefix_def)
  moreover from assms(2) have "0 < count_list (map Memory (Roles t)) (Memory r)"
    using count_list_0_iff [of "map Memory (Roles t)" "Memory r"] by auto
  ultimately show ?thesis
    by (simp add: seed_history)
qed

section \<open>Properties of every run\<close>

lemma in_added_of:
  "msg \<in> set (added_of pc) \<Longrightarrow> result_of pc = Some (msg, None)"
proof (cases pc)
  case (T_acted m e)
  assume "msg \<in> set (added_of pc)"
  with T_acted show ?thesis by (cases e) auto
next
  case (T_deferred m e)
  assume "msg \<in> set (added_of pc)"
  with T_deferred show ?thesis by (cases e) auto
next
  case (T_finished m e)
  assume "msg \<in> set (added_of pc)"
  with T_finished show ?thesis by (cases e) auto
qed auto

text \<open>
  Claim C1, as amended. There is no barrier between the role goroutines and delivery:
  \<open>RunProject\<close> ranges over the channel while the roles run, and only the closing of
  the channel waits for the WaitGroup. What holds in every state of every run:
  \<^item> \<open>RunProject\<close> has returned only if every role goroutine has ended;
  \<^item> a message that \<open>RunProject\<close> holds (received, being reported or being delivered)
    or that is queued in the channel was sent by a role goroutine whose \<open>Act\<close> has
    returned it: that goroutine is at its deferred \<^verbatim>\<open>wg.Done()\<close> or has ended;
  \<^item> every result report printed is the report of such a message.
\<close>

theorem delivery_after_producer:
  assumes "RunProject t h sched = Some st"
  shows "(main st = M_returned \<longrightarrow> (\<forall>pc \<in> set (tasks st). finished pc))
    \<and> (\<forall>msg. msg \<in> set (held (main st)) \<or> msg \<in> set (results st) \<longrightarrow>
          (\<exists>i < length (Roles t).
             tasks st ! i = T_deferred msg None \<or> tasks st ! i = T_finished msg None))
    \<and> (\<forall>rl ct. Printed_output rl ct \<in> set (stdout st) \<longrightarrow>
          (\<exists>i < length (Roles t). \<exists>msg.
             (tasks st ! i = T_deferred msg None \<or> tasks st ! i = T_finished msg None)
             \<and> Role msg = rl \<and> Content msg = ct))"
proof -
  from assms have inv: "invariant t h st" by (rule inv_RunProject)
  then have len: "length (tasks st) = length (Roles t)" and flow: "inv_flow st"
    by (simp_all add: invariant_def inv_shape_def)
  have a: "main st = M_returned \<longrightarrow> (\<forall>pc \<in> set (tasks st). finished pc)"
    using returned_finished [OF inv] by blast
  have b: "\<exists>i < length (Roles t).
             tasks st ! i = T_deferred msg None \<or> tasks st ! i = T_finished msg None"
    if "msg \<in> set (held (main st)) \<or> msg \<in> set (results st)" for msg
  proof -
    from that have "msg \<in># mset (results st) + mset (held (main st))" by auto
    moreover from flow have "mset (results st) + mset (held (main st)) \<subseteq># sent_msgs (tasks st)"
      by (simp add: inv_flow_def)
    ultimately have "msg \<in># sent_msgs (tasks st)"
      by (rule mset_subset_eqD [rotated])
    then show ?thesis
      by (simp add: in_sent_msgs len)
  qed
  have c: "\<exists>i < length (Roles t). \<exists>msg.
             (tasks st ! i = T_deferred msg None \<or> tasks st ! i = T_finished msg None)
             \<and> Role msg = rl \<and> Content msg = ct"
    if "Printed_output rl ct \<in> set (stdout st)" for rl ct
  proof -
    from that have "Printed_output rl ct \<in># mset (filter is_output (stdout st))" by simp
    then have "Printed_output rl ct \<in># mset (filter is_output (stdout st))
       + image_mset report (mset (results st) + mset (unprinted (main st)))"
      by simp
    with flow have "Printed_output rl ct \<in># image_mset report (sent_msgs (tasks st))"
      by (simp add: inv_flow_def)
    then obtain msg where "msg \<in># sent_msgs (tasks st)" "report msg = Printed_output rl ct"
      by auto
    then show ?thesis
      by (auto simp: in_sent_msgs len report_def)
  qed
  from a b c show ?thesis by blast
qed

text \<open>
  Claim C2, as amended. For a team whose roles each own their Memory, at every state
  that a run of \<open>RunProject\<close> reaches, every message in the Memory of a role \<open>R\<close> was in
  that Memory before the run, or is the seed request, or is \<open>R\<close>'s own output (the message
  that \<open>R\<close>'s \<open>Act\<close> built from the output of \<open>R\<close>'s first capability and appended itself,
  line 187), or has a cause label that is in \<open>R\<close>'s watch list.
\<close>

theorem memory_membership:
  assumes "RunProject t h sched = Some st"
    and "distinct (map Memory (Roles t))"
    and "i < length (Roles t)"
    and "M \<in> set (history (mem st (Memory (Roles t ! i))))"
  shows "M \<in> set (history (h (Memory (Roles t ! i))))
    \<or> M = userReq t
    \<or> (result_of (tasks st ! i) = Some (M, None)
        \<and> (\<exists>action rest c outp. Actions (Roles t ! i) = action # rest \<and> Run action c = Inr outp
              \<and> M = \<lparr>Content = outp, Role = Profile (Roles t ! i), CauseBy = Action.Name action\<rparr>))
    \<or> CauseBy M \<in> set (WatchList (Roles t ! i))"
proof -
  define a where "a = Memory (Roles t ! i)"
  from assms(1) have inv: "invariant t h st" by (rule inv_RunProject)
  then have len: "length (tasks st) = length (Roles t)" and own: "inv_own t st"
    by (simp_all add: invariant_def inv_shape_def)
  from assms(4) have "M \<in># mset (history (mem st a))" by (simp add: a_def)
  with mem_subset [OF inv, of a]
  have "M \<in># mset (history (seed (userReq t) (Roles t) h a))
          + (\<Sum>x\<leftarrow>zip (Roles t) (tasks st). contrib t a x)"
    by (rule mset_subset_eqD)
  then consider (old) "M \<in> set (history (seed (userReq t) (Roles t) h a))"
    | (new) "M \<in># (\<Sum>x\<leftarrow>zip (Roles t) (tasks st). contrib t a x)"
    by auto
  then show ?thesis
  proof cases
    case old
    then show ?thesis
      by (auto simp: seed_history a_def)
  next
    case new
    then have "\<exists>x \<in> set (zip (Roles t) (tasks st)). M \<in># contrib t a x"
      by (rule in_sum_list_mset)
    then obtain x where x: "x \<in> set (zip (Roles t) (tasks st))" "M \<in># contrib t a x"
      by blast
    from x(1) obtain j where j: "j < length (Roles t)" "x = (Roles t ! j, tasks st ! j)"
      by (rule in_zip_nth)
    from x(2) j(2) consider
        (self) "Memory (Roles t ! j) = a" "M \<in> set (added_of (tasks st ! j))"
      | (deliv) "M \<in># (\<Sum>m\<leftarrow>sent_of (tasks st ! j). delivered (Roles t) a m)"
      by (auto simp: contrib_def split: if_splits)
    then show ?thesis
    proof cases
      case self
      with assms(2,3) j(1) have "j = i"
        by (simp add: a_def distinct_Memory_nth)
      with self(2) have r: "result_of (tasks st ! i) = Some (M, None)"
        by (simp add: in_added_of)
      with own assms(3) len have "Act_outcome (Roles t ! i) M None"
        by (simp add: inv_own_def)
      with r show ?thesis
        by (simp add: Act_outcome_None)
    next
      case deliv
      then have "\<exists>m \<in> set (sent_of (tasks st ! j)). M \<in># delivered (Roles t) a m"
        by (rule in_sum_list_mset)
      then obtain m where "m \<in> set (sent_of (tasks st ! j))" "M \<in># delivered (Roles t) a m"
        by blast
      then have "0 < copies (Roles t) a M"
        by (auto simp: delivered_def split: if_splits)
      then obtain r where r: "r \<in> set (Roles t)" "Memory r = a" "CauseBy M \<in> set (WatchList r)"
        using copies_pos by blast
      with assms(2,3) have "r = Roles t ! i"
        by (simp add: a_def distinct_Memory_mem)
      with r(3) show ?thesis by simp
    qed
  qed
qed

lemma contrib_idle:
  "added_of pc = [] \<Longrightarrow> sent_of pc = [] \<Longrightarrow> contrib t a (r, pc) = {#}"
  by (simp add: contrib_def)

lemma GetRecent_last:
  "history m \<noteq> [] \<Longrightarrow> GetRecent m = [last (history m)]"
  by (cases "history m" rule: rev_cases) (simp_all add: GetRecent_def)

text \<open>
  Claim C6. Seeding happens before dispatch. The seed message has role \<open>User\<close>, cause
  \<open>UserRequirement\<close> and the project idea as content. In the state after the seeding
  loop no goroutine exists yet and \<open>GetRecent\<close> of every role's Memory is exactly the
  seed. In every state of every run: every role's Memory holds the seed and its
  \<open>GetRecent\<close> is not empty; as long as no role has got past the start of \<open>Act\<close>,
  \<open>GetRecent\<close> of every role's Memory is still the seed; and for a role that owns its
  Memory and has not yet read it, \<open>GetRecent\<close> is the seed as long as no message with a
  cause label it watches has been sent (so that nothing can have been delivered to it).
\<close>

theorem seeding_before_dispatch:
  "userReq t = \<lparr>Content = ProjectIdea t, Role = ''User'', CauseBy = ''UserRequirement''\<rparr>
   \<and> (\<forall>pc \<in> set (tasks (init t h)). pc = T_unspawned)
   \<and> (\<forall>r \<in> set (Roles t). GetRecent (mem (init t h) (Memory r)) = [userReq t])
   \<and> (\<forall>sched st. RunProject t h sched = Some st \<longrightarrow>
        (\<forall>r \<in> set (Roles t).
           userReq t \<in> set (history (mem st (Memory r)))
           \<and> GetRecent (mem st (Memory r)) \<noteq> [])
        \<and> ((\<forall>pc \<in> set (tasks st). pc = T_unspawned \<or> pc = T_spawned) \<longrightarrow>
             (\<forall>r \<in> set (Roles t). GetRecent (mem st (Memory r)) = [userReq t]))
        \<and> (\<forall>i < length (Roles t).
             distinct (map Memory (Roles t))
             \<and> (tasks st ! i = T_unspawned \<or> tasks st ! i = T_spawned)
             \<and> (\<forall>j < length (Roles t). \<forall>m.
                   tasks st ! j = T_deferred m None \<or> tasks st ! j = T_finished m None \<longrightarrow>
                   CauseBy m \<notin> set (WatchList (Roles t ! i))) \<longrightarrow>
             GetRecent (mem st (Memory (Roles t ! i))) = [userReq t]))"
proof (intro conjI allI impI)
  show "userReq t = \<lparr>Content = ProjectIdea t, Role = ''User'', CauseBy = ''UserRequirement''\<rparr>"
    by (simp add: userReq_def)
  show "\<forall>pc \<in> set (tasks (init t h)). pc = T_unspawned"
    by (simp add: init_def)
  show "\<forall>r \<in> set (Roles t). GetRecent (mem (init t h) (Memory r)) = [userReq t]"
    by (auto simp: init_def intro: GetRecent_seed)
next
  fix sched st
  assume run: "RunProject t h sched = Some st"
  then have inv: "invariant t h st" by (rule inv_RunProject)
  show "\<forall>r \<in> set (Roles t).
           userReq t \<in> set (history (mem st (Memory r)))
           \<and> GetRecent (mem st (Memory r)) \<noteq> []"
  proof
    fix r
    assume "r \<in> set (Roles t)"
    with inv have "userReq t \<in> set (history (mem st (Memory r)))"
      by (rule seed_in_mem)
    moreover from this have "history (mem st (Memory r)) \<noteq> []" by auto
    then have "GetRecent (mem st (Memory r)) \<noteq> []"
      by (simp add: GetRecent_last)
    ultimately show "userReq t \<in> set (history (mem st (Memory r)))
           \<and> GetRecent (mem st (Memory r)) \<noteq> []" ..
  qed
next
  fix sched st
  assume run: "RunProject t h sched = Some st"
    and idle: "\<forall>pc \<in> set (tasks st). pc = T_unspawned \<or> pc = T_spawned"
  from run have inv: "invariant t h st" by (rule inv_RunProject)
  show "\<forall>r \<in> set (Roles t). GetRecent (mem st (Memory r)) = [userReq t]"
  proof
    fix r
    assume r: "r \<in> set (Roles t)"
    have "contrib t (Memory r) x = {#}" if "x \<in> set (zip (Roles t) (tasks st))" for x
    proof -
      from that have "snd x \<in> set (tasks st)"
        by (metis in_set_zipE prod.collapse)
      with idle have "added_of (snd x) = []" "sent_of (snd x) = []" by auto
      then show ?thesis
        using contrib_idle [of "snd x" t "Memory r" "fst x"] by simp
    qed
    with inv have "history (mem st (Memory r)) = history (seed (userReq t) (Roles t) h (Memory r))"
      by (rule mem_unchanged)
    with r show "GetRecent (mem st (Memory r)) = [userReq t]"
      by (rule GetRecent_seed)
  qed
next
  fix sched st i
  assume run: "RunProject t h sched = Some st"
    and i: "i < length (Roles t)"
    and hyp: "distinct (map Memory (Roles t))
             \<and> (tasks st ! i = T_unspawned \<or> tasks st ! i = T_spawned)
             \<and> (\<forall>j < length (Roles t). \<forall>m.
                   tasks st ! j = T_deferred m None \<or> tasks st ! j = T_finished m None \<longrightarrow>
                   CauseBy m \<notin> set (WatchList (Roles t ! i)))"
  from run have inv: "invariant t h st" by (rule inv_RunProject)
  from hyp have dist: "distinct (map Memory (Roles t))" by simp
  define a where "a = Memory (Roles t ! i)"
  have "contrib t a x = {#}" if "x \<in> set (zip (Roles t) (tasks st))" for x
  proof -
    from that obtain j where j: "j < length (Roles t)" "x = (Roles t ! j, tasks st ! j)"
      by (rule in_zip_nth)
    have "(if Memory (Roles t ! j) = a then mset (added_of (tasks st ! j)) else {#}) = {#}"
    proof (cases "Memory (Roles t ! j) = a")
      case True
      with dist i j(1) have "j = i"
        by (simp add: a_def distinct_Memory_nth)
      with hyp show ?thesis by auto
    next
      case False
      then show ?thesis by simp
    qed
    moreover have "delivered (Roles t) a m = {#}" if "m \<in> set (sent_of (tasks st ! j))" for m
    proof -
      from that hyp j(1) have "CauseBy m \<notin> set (WatchList (Roles t ! i))"
        by (auto simp: in_sent_of)
      moreover from dist i have "copies (Roles t) a m = count_list (WatchList (Roles t ! i)) (CauseBy m)"
        by (simp add: a_def copies_distinct)
      ultimately show ?thesis
        by (simp add: delivered_def)
    qed
    then have "(\<Sum>m\<leftarrow>sent_of (tasks st ! j). delivered (Roles t) a m) = {#}"
      by (rule sum_list_mset_empty)
    ultimately show ?thesis
      using j(2) by (auto simp: contrib_def split: if_splits)
  qed
  with inv have "history (mem st a) = history (seed (userReq t) (Roles t) h a)"
    by (rule mem_unchanged)
  with i show "GetRecent (mem st (Memory (Roles t ! i))) = [userReq t]"
    unfolding a_def by (intro GetRecent_seed) simp_all
qed

section \<open>The outcome of a role is that of its own Act\<close>

lemma read_context_now: "read_context (history m) (contextData_of (GetRecent m))"
proof -
  have "\<lparr>history = take (length (history m)) (history m)\<rparr> = m" by simp
  then show ?thesis unfolding read_context_def by (metis order_refl)
qed

lemma read_context_append:
  assumes "read_context hist c"
  shows "read_context (hist @ ys) c"
proof -
  from assms obtain k where k: "k \<le> length hist"
    "c = contextData_of (GetRecent \<lparr>history = take k hist\<rparr>)"
    unfolding read_context_def by blast
  then have "k \<le> length (hist @ ys)" "take k (hist @ ys) = take k hist"
    by simp_all
  with k(2) show ?thesis
    unfolding read_context_def by metis
qed

lemma own_outcome_append: "own_outcome r hist msg err \<Longrightarrow> own_outcome r (hist @ ys) msg err"
  unfolding own_outcome_def using read_context_append by blast

lemma read_context_Add_at:
  "read_context (history (h a)) c \<Longrightarrow> read_context (history (Add_at h b msg a)) c"
  by (cases "a = b") (auto simp: Add_at_def Add_def intro: read_context_append)

lemma own_outcome_Add_at:
  "own_outcome r (history (h a)) m err \<Longrightarrow> own_outcome r (history (Add_at h b msg a)) m err"
  by (cases "a = b") (auto simp: Add_at_def Add_def intro: own_outcome_append)

lemma inv_ctx_init: "inv_ctx t (init t h)"
  by (simp add: inv_ctx_def init_def)

lemma inv_ctx_worker:
  assumes "step t (Worker i) st = Some st'" and "inv_ctx t st"
  shows "inv_ctx t st'"
  using assms(1)
proof (cases rule: step_worker_cases)
  case read
  then show ?thesis
    using assms(2) by (auto simp: inv_ctx_def nth_list_update read_context_now)
next
  case (fail c msg err h' calls)
  then have "own_outcome (Roles t ! i) (history (mem st (Memory (Roles t ! i)))) msg (Some err)"
    using assms(2) unfolding inv_ctx_def own_outcome_def by blast
  with fail show ?thesis
    using assms(2) by (auto simp: inv_ctx_def nth_list_update)
next
  case (run c msg h' calls)
  then have "own_outcome (Roles t ! i) (history (mem st (Memory (Roles t ! i)))) msg None"
    using assms(2) unfolding inv_ctx_def own_outcome_def by blast
  with run show ?thesis
    using assms(2) by (auto simp: inv_ctx_def nth_list_update)
next
  case (add msg)
  then show ?thesis
    using assms(2)
    by (auto simp: inv_ctx_def nth_list_update intro: read_context_Add_at own_outcome_Add_at)
next
  case (print msg err)
  then show ?thesis
    using assms(2) by (auto simp: inv_ctx_def nth_list_update)
next
  case (send msg)
  then show ?thesis
    using assms(2) by (auto simp: inv_ctx_def nth_list_update)
next
  case (finish msg err)
  then show ?thesis
    using assms(2) by (auto simp: inv_ctx_def nth_list_update)
qed

lemma inv_ctx_main:
  assumes "step t Main st = Some st'" and "inv_ctx t st"
  shows "inv_ctx t st'"
  using assms(1)
proof (cases rule: step_main_cases)
  case (dispatch i)
  then show ?thesis
    using assms(2) by (auto simp: inv_ctx_def nth_update_if split: if_splits)
next
  case (inner_add msg role ws roles)
  then show ?thesis
    using assms(2)
    by (auto simp: inv_ctx_def intro: read_context_Add_at own_outcome_Add_at)
qed (use assms(2) in \<open>auto simp: inv_ctx_def\<close>)

lemma inv_ctx_closer:
  assumes "step t Closer st = Some st'" and "inv_ctx t st"
  shows "inv_ctx t st'"
  using assms
  by (cases rule: step_closer_cases) (auto simp: inv_ctx_def)

lemma inv_ctx_step:
  "step t th st = Some st' \<Longrightarrow> inv_ctx t st \<Longrightarrow> inv_ctx t st'"
  by (cases th) (auto intro: inv_ctx_main inv_ctx_worker inv_ctx_closer)

lemma inv_ctx_exec: "exec t sched st = Some st' \<Longrightarrow> inv_ctx t st \<Longrightarrow> inv_ctx t st'"
proof (induction sched arbitrary: st)
  case Nil
  then show ?case by simp
next
  case (Cons th sched)
  then show ?case
    by (auto split: option.splits dest: inv_ctx_step)
qed

lemma inv_ctx_RunProject: "RunProject t h sched = Some st \<Longrightarrow> inv_ctx t st"
  unfolding RunProject_def using inv_ctx_init by (rule inv_ctx_exec [rotated])

lemma Act_loop_heap:
  "Act_loop r c as h = (msg, err, h', calls) \<Longrightarrow>
   \<exists>h''. Act_loop r c as h0 = (msg, err, h'', calls)"
proof (cases as)
  case Nil
  assume "Act_loop r c as h = (msg, err, h', calls)"
  with Nil show ?thesis by simp
next
  case (Cons action rest)
  assume a: "Act_loop r c as h = (msg, err, h', calls)"
  show ?thesis
  proof (cases "Run action c")
    case (Inl e)
    with a Cons show ?thesis by simp
  next
    case (Inr outp)
    with a Cons show ?thesis by (simp add: Let_def)
  qed
qed

lemma own_outcome_Act:
  assumes "own_outcome r hist msg err"
  shows "\<exists>k h0 h' calls. k \<le> length hist \<and> h0 (Memory r) = \<lparr>history = take k hist\<rparr>
           \<and> Act r h0 = (msg, err, h', calls)"
proof -
  from assms obtain k h h' calls where k: "k \<le> length hist"
    and a: "Act_loop r (contextData_of (GetRecent \<lparr>history = take k hist\<rparr>)) (Actions r) h
              = (msg, err, h', calls)"
    unfolding own_outcome_def read_context_def by blast
  define h0 :: heap where "h0 = (\<lambda>a. \<lparr>history = take k hist\<rparr>)"
  from Act_loop_heap [OF a, of h0] obtain h'' where
    "Act_loop r (contextData_of (GetRecent \<lparr>history = take k hist\<rparr>)) (Actions r) h0
       = (msg, err, h'', calls)"
    by blast
  then have "Act r h0 = (msg, err, h'', calls)"
    by (simp add: Act_def h0_def)
  moreover have "h0 (Memory r) = \<lparr>history = take k hist\<rparr>"
    by (simp add: h0_def)
  ultimately show ?thesis using k by blast
qed

lemma own_outcome_Act_outcome: "own_outcome r hist msg err \<Longrightarrow> Act_outcome r msg err"
  unfolding own_outcome_def Act_outcome_def by blast

lemma worker_runs_Act:
  assumes "i < length (Roles t)" "i < length (tasks st)" "tasks st ! i = T_spawned"
    and "Act (Roles t ! i) (mem st) = (msg, err, h', calls)"
  shows "\<exists>st'. exec t [Worker i, Worker i, Worker i] st = Some st'
           \<and> result_of (tasks st' ! i) = Some (msg, err) \<and> mem st' = h'"
proof (cases err)
  case None
  with worker_runs_Act_success [of i t st msg h' calls] assms show ?thesis
    by simp
next
  case (Some e)
  with worker_runs_Act_failure [of i t st msg e h' calls] assms show ?thesis
    by simp
qed

text \<open>
  Claim C7. Failure isolation and result count, for every team, every starting heap
  and every schedule, at every state \<open>st\<close> that a run of \<open>RunProject\<close> reaches:

  \<^item> the run can be continued to the return of \<open>RunProject\<close>, whatever has failed so
    far, and every step of every goroutine decreases a bound, so that no run can go
    on forever;
  \<^item> when \<open>RunProject\<close> has returned, every role's goroutine has ended, the number of
    results reported is the number of roles whose \<open>Act\<close> succeeded and at most the
    number of roles, and the result of every role whose \<open>Act\<close> succeeded has been
    reported and appended to the Memory of every role once per entry of its watch list
    equal to the result's label;
  \<^item> the outcome that a role's goroutine holds, success or failure, is the outcome of
    that role's own \<open>Act\<close> on an earlier content of that role's own Memory;
  \<^item> in particular a role has failed only if its own capability list is empty or its
    own first capability returned an error, and the error held is the one \<open>Act\<close>
    makes of it: no failure of another role makes a role fail;
  \<^item> a role whose goroutine has been started and has not yet read its Memory can run
    its \<open>Act\<close> to completion at once, with the outcome and the heap that \<open>Act\<close> returns
    on the current heap, whatever the other goroutines have done.
\<close>

theorem failure_isolation:
  assumes "RunProject t h sched = Some st"
  shows "(\<exists>sched' st'. RunProject t h (sched @ sched') = Some st' \<and> main st' = M_returned)
    \<and> (\<forall>th st'. step t th st = Some st' \<longrightarrow> steps_left t st' < steps_left t st)
    \<and> (main st = M_returned \<longrightarrow>
         (\<forall>pc \<in> set (tasks st). finished pc)
         \<and> length (filter is_output (stdout st)) = length (filter succeeded (tasks st))
         \<and> length (filter is_output (stdout st)) \<le> length (Roles t)
         \<and> (\<forall>i < length (Roles t). \<forall>msg. tasks st ! i = T_finished msg None \<longrightarrow>
               Act_outcome (Roles t ! i) msg None
               \<and> Printed_output (Role msg) (Content msg) \<in> set (stdout st)
               \<and> (\<forall>r \<in> set (Roles t).
                     count_list (WatchList r) (CauseBy msg)
                       \<le> count_list (history (mem st (Memory r))) msg)))
    \<and> (\<forall>i < length (Roles t). \<forall>msg err.
          result_of (tasks st ! i) = Some (msg, err) \<longrightarrow>
          (\<exists>k h0 h' calls.
              k \<le> length (history (mem st (Memory (Roles t ! i))))
              \<and> h0 (Memory (Roles t ! i))
                  = \<lparr>history = take k (history (mem st (Memory (Roles t ! i))))\<rparr>
              \<and> Act (Roles t ! i) h0 = (msg, err, h', calls)))
    \<and> (\<forall>i < length (Roles t). \<forall>msg e.
          result_of (tasks st ! i) = Some (msg, Some e) \<longrightarrow>
          msg = Message_zero
          \<and> (Actions (Roles t ! i) = [] \<and> e = errorString ''no suitable action found''
             \<or> (\<exists>action rest c err.
                  Actions (Roles t ! i) = action # rest \<and> Run action c = Inl err
                  \<and> e = wrapError (Action.Name action @ '' action failed: '' @ Error err) err)))
    \<and> (\<forall>i < length (Roles t). \<forall>msg err h' calls.
          tasks st ! i = T_spawned \<and> Act (Roles t ! i) (mem st) = (msg, err, h', calls) \<longrightarrow>
          (\<exists>st'. exec t [Worker i, Worker i, Worker i] st = Some st'
             \<and> result_of (tasks st' ! i) = Some (msg, err) \<and> mem st' = h'))"
proof -
  from assms have inv: "invariant t h st" by (rule inv_RunProject)
  then have len: "length (tasks st) = length (Roles t)" and own: "inv_own t st"
    and sh: "inv_shape t st"
    by (simp_all add: invariant_def inv_shape_def)
  from assms have ctx: "inv_ctx t st" by (rule inv_ctx_RunProject)
  from completes [OF inv] obtain sched' st' where
    "exec t sched' st = Some st'" "main st' = M_returned"
    by blast
  with assms have "RunProject t h (sched @ sched') = Some st' \<and> main st' = M_returned"
    by (simp add: RunProject_def exec_append)
  then have a: "\<exists>sched' st'. RunProject t h (sched @ sched') = Some st' \<and> main st' = M_returned"
    by blast
  have b: "\<forall>th st'. step t th st = Some st' \<longrightarrow> steps_left t st' < steps_left t st"
    using sh by (auto intro: steps_left_step)
  have c: "main st = M_returned \<longrightarrow>
         (\<forall>pc \<in> set (tasks st). finished pc)
         \<and> length (filter is_output (stdout st)) = length (filter succeeded (tasks st))
         \<and> length (filter is_output (stdout st)) \<le> length (Roles t)
         \<and> (\<forall>i < length (Roles t). \<forall>msg. tasks st ! i = T_finished msg None \<longrightarrow>
               Act_outcome (Roles t ! i) msg None
               \<and> Printed_output (Role msg) (Content msg) \<in> set (stdout st)
               \<and> (\<forall>r \<in> set (Roles t).
                     count_list (WatchList r) (CauseBy msg)
                       \<le> count_list (history (mem st (Memory r))) msg))"
  proof (intro conjI allI impI ballI)
    assume ret: "main st = M_returned"
    show fin: "\<And>pc. pc \<in> set (tasks st) \<Longrightarrow> finished pc"
      using returned_finished [OF inv ret] by blast
    have "length (filter is_output (stdout st)) = size (mset (filter is_output (stdout st)))"
      by (simp only: size_mset)
    also have "\<dots> = size (image_mset report (sent_msgs (tasks st)))"
      by (simp only: returned_outputs [OF inv ret])
    also have "\<dots> = length (filter succeeded (tasks st))"
      using fin by (simp add: size_sent_msgs)
    finally show n: "length (filter is_output (stdout st)) = length (filter succeeded (tasks st))" .
    have "length (filter succeeded (tasks st)) \<le> length (tasks st)"
      by (rule length_filter_le)
    with n len show "length (filter is_output (stdout st)) \<le> length (Roles t)"
      by simp
  next
    fix i msg
    assume ret: "main st = M_returned"
    assume i: "i < length (Roles t)" "tasks st ! i = T_finished msg None"
    with own len show "Act_outcome (Roles t ! i) msg None"
      by (simp add: inv_own_def)
    from i len have "msg \<in># sent_msgs (tasks st)"
      by (auto simp: in_sent_msgs)
    then have "report msg \<in># image_mset report (sent_msgs (tasks st))"
      by simp
    then have "report msg \<in># mset (filter is_output (stdout st))"
      using returned_outputs [OF inv ret] by simp
    then show "Printed_output (Role msg) (Content msg) \<in> set (stdout st)"
      by (simp add: report_def)
  next
    fix i msg r
    assume ret: "main st = M_returned"
    assume "i < length (Roles t)" "tasks st ! i = T_finished msg None" "r \<in> set (Roles t)"
    with returned_delivered [OF inv ret, of i msg r]
    show "count_list (WatchList r) (CauseBy msg) \<le> count_list (history (mem st (Memory r))) msg"
      by simp
  qed
  have o: "own_outcome (Roles t ! i) (history (mem st (Memory (Roles t ! i)))) msg err"
    if "i < length (Roles t)" "result_of (tasks st ! i) = Some (msg, err)" for i msg err
    using ctx that len by (simp add: inv_ctx_def)
  have d: "\<forall>i < length (Roles t). \<forall>msg err.
          result_of (tasks st ! i) = Some (msg, err) \<longrightarrow>
          (\<exists>k h0 h' calls.
              k \<le> length (history (mem st (Memory (Roles t ! i))))
              \<and> h0 (Memory (Roles t ! i))
                  = \<lparr>history = take k (history (mem st (Memory (Roles t ! i))))\<rparr>
              \<and> Act (Roles t ! i) h0 = (msg, err, h', calls))"
  proof (intro allI impI)
    fix i msg err
    assume "i < length (Roles t)" "result_of (tasks st ! i) = Some (msg, err)"
    then have "own_outcome (Roles t ! i) (history (mem st (Memory (Roles t ! i)))) msg err"
      by (rule o)
    then show "\<exists>k h0 h' calls.
              k \<le> length (history (mem st (Memory (Roles t ! i))))
              \<and> h0 (Memory (Roles t ! i))
                  = \<lparr>history = take k (history (mem st (Memory (Roles t ! i))))\<rparr>
              \<and> Act (Roles t ! i) h0 = (msg, err, h', calls)"
      by (rule own_outcome_Act)
  qed
  have e: "\<forall>i < length (Roles t). \<forall>msg e.
          result_of (tasks st ! i) = Some (msg, Some e) \<longrightarrow>
          msg = Message_zero
          \<and> (Actions (Roles t ! i) = [] \<and> e = errorString ''no suitable action found''
             \<or> (\<exists>action rest c err.
                  Actions (Roles t ! i) = action # rest \<and> Run action c = Inl err
                  \<and> e = wrapError (Action.Name action @ '' action failed: '' @ Error err) err))"
  proof (intro allI impI)
    fix i msg e
    assume "i < length (Roles t)" "result_of (tasks st ! i) = Some (msg, Some e)"
    then have "own_outcome (Roles t ! i) (history (mem st (Memory (Roles t ! i)))) msg (Some e)"
      by (rule o)
    then have "Act_outcome (Roles t ! i) msg (Some e)"
      by (rule own_outcome_Act_outcome)
    then show "msg = Message_zero
          \<and> (Actions (Roles t ! i) = [] \<and> e = errorString ''no suitable action found''
             \<or> (\<exists>action rest c err.
                  Actions (Roles t ! i) = action # rest \<and> Run action c = Inl err
                  \<and> e = wrapError (Action.Name action @ '' action failed: '' @ Error err) err))"
      by (simp only: Act_outcome_Some)
  qed
  have f: "\<forall>i < length (Roles t). \<forall>msg err h' calls.
          tasks st ! i = T_spawned \<and> Act (Roles t ! i) (mem st) = (msg, err, h', calls) \<longrightarrow>
          (\<exists>st'. exec t [Worker i, Worker i, Worker i] st = Some st'
             \<and> result_of (tasks st' ! i) = Some (msg, err) \<and> mem st' = h')"
  proof (intro allI impI)
    fix i msg err h' calls
    assume "i < length (Roles t)"
      "tasks st ! i = T_spawned \<and> Act (Roles t ! i) (mem st) = (msg, err, h', calls)"
    with len show "\<exists>st'. exec t [Worker i, Worker i, Worker i] st = Some st'
             \<and> result_of (tasks st' ! i) = Some (msg, err) \<and> mem st' = h'"
      by (intro worker_runs_Act) simp_all
  qed
  from a b c d e f show ?thesis by (intro conjI)
qed

section \<open>Concrete runs\<close>

lemmas demo_defs =
  demo_team_def main_team_def coder_def tester_def reviewer_def empty_heap_def llm_ok_def
  SimpleWriteCode_def SimpleWriteTest_def SimpleWriteReview_def
  SimpleWriteCode_Run_def SimpleWriteTest_Run_def SimpleWriteReview_Run_def
  parseCode_def FindStringSubmatch_go_def Let_def
  RunProject_def init_def userReq_def observed_def observe_def
  Add_at_def Add_def GetRecent_def contextData_of_def
  seed_msg_def code_msg_def test_msg_def review_msg_def

lemma demo_run:
  "observed [0, 1, 2] (RunProject demo_team empty_heap sequential_schedule) =
     Some ([[seed_msg, code_msg], [seed_msg, test_msg, code_msg], [seed_msg, review_msg, test_msg]],
           [T_finished test_msg None, T_finished code_msg None, T_finished review_msg None],
           0, [], True, M_returned, C_closed,
           [Printed_output ''SimpleTester'' ''ok'', Printed_output ''SimpleCoder'' ''ok'',
            Printed_output ''SimpleReviewer'' ''ok''])"
  by (simp add: demo_defs sequential_schedule_def numeral_eq_Suc)

lemma early_run:
  "observed [0, 1, 2] (RunProject demo_team empty_heap early_delivery_schedule) =
     Some ([[seed_msg, code_msg], [seed_msg, code_msg], [seed_msg]],
           [T_spawned, T_deferred code_msg None, T_spawned],
           3, [], False,
           M_inner code_msg (tester FindStringSubmatch_go (\<lambda>s. s) llm_ok) []
             [coder FindStringSubmatch_go (\<lambda>s. s) llm_ok, reviewer llm_ok],
           C_waiting,
           [Printed_output ''SimpleCoder'' ''ok''])"
  by (simp add: demo_defs early_delivery_schedule_def numeral_eq_Suc)

lemma failing_run:
  "observed [0, 1, 2] (RunProject failing_team empty_heap failing_schedule) =
     Some ([[seed_msg, code_msg], [seed_msg, code_msg], [seed_msg, review_msg]],
           [T_finished Message_zero
              (Some (wrapError ''SimpleWriteTest action failed: timeout'' (errorString ''timeout''))),
            T_finished code_msg None, T_finished review_msg None],
           0, [], True, M_returned, C_closed,
           [Printed_error ''SimpleTester''
              (wrapError ''SimpleWriteTest action failed: timeout'' (errorString ''timeout'')),
            Printed_output ''SimpleCoder'' ''ok'', Printed_output ''SimpleReviewer'' ''ok''])"
  by (simp add: demo_defs failing_team_def broken_tester_def failing_schedule_def
      Errorf_action_failed_def numeral_eq_Suc)

lemma self_run:
  "observed [0] (RunProject self_team empty_heap self_schedule) =
     Some ([[\<lparr>Content = ''idea'', Role = ''User'', CauseBy = ''UserRequirement''\<rparr>,
             code_msg, code_msg]],
           [T_finished code_msg None],
           0, [], True, M_returned, C_closed,
           [Printed_output ''SimpleCoder'' ''ok''])"
  by (simp add: demo_defs self_team_def self_watcher_def self_schedule_def numeral_eq_Suc)

lemma observedD:
  assumes "observed as r = Some (hs, ts, w, rs, c, m, k, out)"
  obtains st where "r = Some st" "map (\<lambda>a. history (mem st a)) as = hs" "tasks st = ts"
    "wg st = w" "results st = rs" "closed st = c" "main st = m" "closer st = k" "stdout st = out"
  using assms by (cases r) (auto simp: observed_def observe_def)

text \<open>
  Claim C10. Duplicate watch list entries cause duplicate deliveries. For a role \<open>R\<close> that
  owns its Memory, the delivery step for \<open>M\<close> appends exactly as many copies of \<open>M\<close> as
  \<open>M\<close>'s cause label occurs in \<open>R\<close>'s watch list. After \<open>R\<close>'s own successful \<open>Act\<close>
  and the delivery of its output \<open>M\<close>, \<open>R\<close>'s Memory has grown by \<open>M\<close> once from the
  self-append and once more per occurrence of its capability's name in its watch list.
  And in every run that has returned, a role whose \<open>Act\<close> succeeded with \<open>msg\<close> holds at
  least one copy of \<open>msg\<close> more than its watch list has entries equal to \<open>msg\<close>'s label.
\<close>

theorem duplicate_deliveries:
  "(distinct (map Memory roles) \<and> R \<in> set roles \<longrightarrow>
      history (deliver M roles h (Memory R))
        = history (h (Memory R)) @ replicate (count_list (WatchList R) (CauseBy M)) M)
   \<and> (distinct (map Memory roles) \<and> R \<in> set roles
       \<and> Actions R = action # rest
       \<and> Run action (contextData_of (GetRecent (h (Memory R)))) = Inr outp
       \<and> M = \<lparr>Content = outp, Role = Profile R, CauseBy = Action.Name action\<rparr> \<longrightarrow>
       (\<exists>h'. Act R h = (M, None, h', [(Action.Name action, contextData_of (GetRecent (h (Memory R))))])
          \<and> history (deliver M roles h' (Memory R))
             = history (h (Memory R)) @ [M]
               @ replicate (count_list (WatchList R) (Action.Name action)) M))
   \<and> (\<forall>t h0 sched st i msg.
        RunProject t h0 sched = Some st \<and> main st = M_returned
        \<and> i < length (Roles t) \<and> tasks st ! i = T_finished msg None \<longrightarrow>
        1 + count_list (WatchList (Roles t ! i)) (CauseBy msg)
          \<le> count_list (history (mem st (Memory (Roles t ! i)))) msg)"
proof -
  have a: "history (deliver M roles h (Memory R))
      = history (h (Memory R)) @ replicate (count_list (WatchList R) (CauseBy M)) M"
    if "distinct (map Memory roles)" "R \<in> set roles" for h
    using that by (simp add: deliver_history copies_distinct)
  have b: "Act R h = (M, None, Add_at h (Memory R) M,
        [(Action.Name action, contextData_of (GetRecent (h (Memory R))))])"
    if "Actions R = action # rest"
      "Run action (contextData_of (GetRecent (h (Memory R)))) = Inr outp"
      "M = \<lparr>Content = outp, Role = Profile R, CauseBy = Action.Name action\<rparr>"
    using that by (simp add: Act_def Let_def)
  have c: "1 + count_list (WatchList (Roles t ! i)) (CauseBy msg)
          \<le> count_list (history (mem st (Memory (Roles t ! i)))) msg"
    if "RunProject t h0 sched = Some st" "main st = M_returned"
      "i < length (Roles t)" "tasks st ! i = T_finished msg None"
    for t h0 sched st i msg
  proof -
    from that(1) have "invariant t h0 st" by (rule inv_RunProject)
    from returned_delivered [OF this that(2,3,4), of "Roles t ! i"] that(3)
    show ?thesis by simp
  qed
  show ?thesis
  proof (intro conjI impI allI)
    assume "distinct (map Memory roles) \<and> R \<in> set roles"
    then show "history (deliver M roles h (Memory R))
      = history (h (Memory R)) @ replicate (count_list (WatchList R) (CauseBy M)) M"
      using a by simp
  next
    assume h: "distinct (map Memory roles) \<and> R \<in> set roles
       \<and> Actions R = action # rest
       \<and> Run action (contextData_of (GetRecent (h (Memory R)))) = Inr outp
       \<and> M = \<lparr>Content = outp, Role = Profile R, CauseBy = Action.Name action\<rparr>"
    then have "Act R h = (M, None, Add_at h (Memory R) M,
        [(Action.Name action, contextData_of (GetRecent (h (Memory R))))])"
      using b by simp
    moreover from h have "history (deliver M roles (Add_at h (Memory R) M) (Memory R))
             = history (h (Memory R)) @ [M]
               @ replicate (count_list (WatchList R) (Action.Name action)) M"
      using a [of "Add_at h (Memory R) M"] by (simp add: Add_at_history)
    ultimately show "\<exists>h'. Act R h = (M, None, h', [(Action.Name action, contextData_of (GetRecent (h (Memory R))))])
          \<and> history (deliver M roles h' (Memory R))
             = history (h (Memory R)) @ [M]
               @ replicate (count_list (WatchList R) (Action.Name action)) M"
      by blast
  next
    fix t h0 sched st i msg
    assume "RunProject t h0 sched = Some st \<and> main st = M_returned
        \<and> i < length (Roles t) \<and> tasks st ! i = T_finished msg None"
    then show "1 + count_list (WatchList (Roles t ! i)) (CauseBy msg)
          \<le> count_list (history (mem st (Memory (Roles t ! i)))) msg"
      using c by blast
  qed
qed

lemma demo_distinct: "distinct (map Memory (Roles demo_team))"
  by (simp add: demo_team_def main_team_def coder_def tester_def reviewer_def)

lemma demo_roles:
  "Roles demo_team ! 0 = tester FindStringSubmatch_go (\<lambda>s. s) llm_ok"
  "Roles demo_team ! 1 = coder FindStringSubmatch_go (\<lambda>s. s) llm_ok"
  "Roles demo_team ! Suc 0 = coder FindStringSubmatch_go (\<lambda>s. s) llm_ok"
  "Roles demo_team ! 2 = reviewer llm_ok"
  "length (Roles demo_team) = 3"
  by (simp_all add: demo_team_def main_team_def)

text \<open>Claim C10 on a one-role team whose role watches the name of its own capability: its Memory ends with two copies of its output.\<close>

theorem duplicate_deliveries_witness:
  "\<exists>st. RunProject self_team empty_heap self_schedule = Some st
     \<and> main st = M_returned
     \<and> tasks st ! 0 = T_finished code_msg None
     \<and> WatchList (Roles self_team ! 0) = [CauseBy code_msg]
     \<and> count_list (history (mem st (Memory (Roles self_team ! 0)))) code_msg = 2
     \<and> 1 + count_list (WatchList (Roles self_team ! 0)) (CauseBy code_msg)
         \<le> count_list (history (mem st (Memory (Roles self_team ! 0)))) code_msg"
proof -
  from self_run obtain st where st: "RunProject self_team empty_heap self_schedule = Some st"
    "map (\<lambda>a. history (mem st a)) [0] =
       [[\<lparr>Content = ''idea'', Role = ''User'', CauseBy = ''UserRequirement''\<rparr>, code_msg, code_msg]]"
    "tasks st = [T_finished code_msg None]" "main st = M_returned"
    by (rule observedD)
  have r: "Roles self_team ! 0 = self_watcher" "length (Roles self_team) = 1"
    by (simp_all add: self_team_def)
  from duplicate_deliveries [THEN conjunct2, THEN conjunct2, rule_format,
      of self_team empty_heap self_schedule st 0 code_msg]
  have "1 + count_list (WatchList (Roles self_team ! 0)) (CauseBy code_msg)
         \<le> count_list (history (mem st (Memory (Roles self_team ! 0)))) code_msg"
    using st r by simp
  with st r show ?thesis
    by (auto simp: self_watcher_def code_msg_def)
qed

text \<open>
  Claim C1 as stated fails. In the team of \<^verbatim>\<open>main\<close>, let the coder run up to its
  send and let \<open>RunProject\<close> receive, report and deliver: the tester's Memory (address
  1) then holds the coder's message and the report is printed, while the tester and the
  reviewer have not started \<open>Act\<close> and not even the coder's goroutine has ended.
\<close>

theorem barrier_counterexample:
  "observed [1] (RunProject demo_team empty_heap early_delivery_schedule) =
     Some ([[seed_msg, code_msg]],
           [T_spawned, T_deferred code_msg None, T_spawned],
           3, [], False,
           M_inner code_msg (tester FindStringSubmatch_go (\<lambda>s. s) llm_ok) []
             [coder FindStringSubmatch_go (\<lambda>s. s) llm_ok, reviewer llm_ok],
           C_waiting,
           [Printed_output ''SimpleCoder'' ''ok''])
   \<and> Memory (tester FindStringSubmatch_go (\<lambda>s. s) llm_ok) = 1
   \<and> \<not> finished T_spawned \<and> \<not> finished (T_deferred code_msg None)"
proof -
  from early_run obtain st where
    "RunProject demo_team empty_heap early_delivery_schedule = Some st"
    "map (\<lambda>a. history (mem st a)) [0, 1, 2] = [[seed_msg, code_msg], [seed_msg, code_msg], [seed_msg]]"
    "tasks st = [T_spawned, T_deferred code_msg None, T_spawned]"
    "wg st = 3" "results st = []" "closed st = False"
    "main st = M_inner code_msg (tester FindStringSubmatch_go (\<lambda>s. s) llm_ok) []
             [coder FindStringSubmatch_go (\<lambda>s. s) llm_ok, reviewer llm_ok]"
    "closer st = C_waiting" "stdout st = [Printed_output ''SimpleCoder'' ''ok'']"
    by (rule observedD)
  then show ?thesis
    by (simp add: observed_def observe_def tester_def)
qed

text \<open>The amended claim C1 at the state of the counterexample.\<close>

theorem delivery_after_producer_witness:
  "\<exists>st. RunProject demo_team empty_heap early_delivery_schedule = Some st
     \<and> held (main st) = [code_msg]
     \<and> stdout st = [Printed_output (Role code_msg) (Content code_msg)]
     \<and> tasks st ! 1 = T_deferred code_msg None
     \<and> (\<exists>i < length (Roles demo_team).
           tasks st ! i = T_deferred code_msg None \<or> tasks st ! i = T_finished code_msg None)"
proof -
  from early_run obtain st where st:
    "RunProject demo_team empty_heap early_delivery_schedule = Some st"
    "tasks st = [T_spawned, T_deferred code_msg None, T_spawned]"
    "main st = M_inner code_msg (tester FindStringSubmatch_go (\<lambda>s. s) llm_ok) []
             [coder FindStringSubmatch_go (\<lambda>s. s) llm_ok, reviewer llm_ok]"
    "stdout st = [Printed_output ''SimpleCoder'' ''ok'']"
    by (rule observedD)
  from delivery_after_producer [OF st(1)] st(3)
  have "\<exists>i < length (Roles demo_team).
           tasks st ! i = T_deferred code_msg None \<or> tasks st ! i = T_finished code_msg None"
    by simp
  with st show ?thesis
    by (simp add: code_msg_def)
qed

text \<open>
  Claim C2 as stated fails. After the complete run of the team of \<^verbatim>\<open>main\<close>, the
  Memory of the coder (address 0) holds the coder's own \<open>SimpleWriteCode\<close> output, which
  is not the seed request and whose cause label is not in the coder's watch list, the
  single entry \<open>UserRequirement\<close>.
\<close>

theorem membership_counterexample:
  "observed [0] (RunProject demo_team empty_heap sequential_schedule) =
     Some ([[seed_msg, code_msg]],
           [T_finished test_msg None, T_finished code_msg None, T_finished review_msg None],
           0, [], True, M_returned, C_closed,
           [Printed_output ''SimpleTester'' ''ok'', Printed_output ''SimpleCoder'' ''ok'',
            Printed_output ''SimpleReviewer'' ''ok''])
   \<and> Memory (Roles demo_team ! 1) = 0
   \<and> WatchList (Roles demo_team ! 1) = [''UserRequirement'']
   \<and> CauseBy code_msg = ''SimpleWriteCode''
   \<and> code_msg \<noteq> userReq demo_team"
proof -
  from demo_run obtain st where
    "RunProject demo_team empty_heap sequential_schedule = Some st"
    "map (\<lambda>a. history (mem st a)) [0, 1, 2] =
       [[seed_msg, code_msg], [seed_msg, test_msg, code_msg], [seed_msg, review_msg, test_msg]]"
    "tasks st = [T_finished test_msg None, T_finished code_msg None, T_finished review_msg None]"
    "wg st = 0" "results st = []" "closed st = True" "main st = M_returned"
    "closer st = C_closed"
    "stdout st = [Printed_output ''SimpleTester'' ''ok'', Printed_output ''SimpleCoder'' ''ok'',
            Printed_output ''SimpleReviewer'' ''ok'']"
    by (rule observedD)
  then show ?thesis
    by (simp add: observed_def observe_def demo_roles coder_def code_msg_def userReq_def)
qed

text \<open>The amended claim C2 at the coder of the complete run.\<close>

theorem memory_membership_witness:
  "\<exists>st. RunProject demo_team empty_heap sequential_schedule = Some st
     \<and> distinct (map Memory (Roles demo_team))
     \<and> code_msg \<in> set (history (mem st (Memory (Roles demo_team ! 1))))
     \<and> code_msg \<notin> set (history (empty_heap (Memory (Roles demo_team ! 1))))
     \<and> code_msg \<noteq> userReq demo_team
     \<and> CauseBy code_msg \<notin> set (WatchList (Roles demo_team ! 1))
     \<and> result_of (tasks st ! 1) = Some (code_msg, None)
     \<and> (\<exists>action rest c outp. Actions (Roles demo_team ! 1) = action # rest
           \<and> Run action c = Inr outp
           \<and> code_msg = \<lparr>Content = outp, Role = Profile (Roles demo_team ! 1),
                           CauseBy = Action.Name action\<rparr>)"
proof -
  from demo_run obtain st where st:
    "RunProject demo_team empty_heap sequential_schedule = Some st"
    "map (\<lambda>a. history (mem st a)) [0, 1, 2] =
       [[seed_msg, code_msg], [seed_msg, test_msg, code_msg], [seed_msg, review_msg, test_msg]]"
    "tasks st = [T_finished test_msg None, T_finished code_msg None, T_finished review_msg None]"
    by (rule observedD)
  have m: "code_msg \<in> set (history (mem st (Memory (Roles demo_team ! 1))))"
    using st(2) by (simp add: demo_roles coder_def)
  have n: "code_msg \<notin> set (history (empty_heap (Memory (Roles demo_team ! 1))))"
    "code_msg \<noteq> userReq demo_team"
    "CauseBy code_msg \<notin> set (WatchList (Roles demo_team ! 1))"
    by (simp_all add: empty_heap_def demo_roles coder_def code_msg_def userReq_def)
  from memory_membership [OF st(1) demo_distinct _ m] n
  have "result_of (tasks st ! 1) = Some (code_msg, None)
     \<and> (\<exists>action rest c outp. Actions (Roles demo_team ! 1) = action # rest
           \<and> Run action c = Inr outp
           \<and> code_msg = \<lparr>Content = outp, Role = Profile (Roles demo_team ! 1),
                           CauseBy = Action.Name action\<rparr>)"
    by (simp add: demo_roles)
  with st(1) demo_distinct m n show ?thesis
    by blast
qed


text \<open>Claim C4 at the coder of \<^verbatim>\<open>main\<close>, right after seeding.\<close>

theorem Act_success_witness:
  "Actions (coder FindStringSubmatch_go (\<lambda>s. s) llm_ok)
     = [SimpleWriteCode FindStringSubmatch_go (\<lambda>s. s) llm_ok]
   \<and> GetRecent (mem (init demo_team empty_heap) 0) = [seed_msg]
   \<and> contextData_of (GetRecent (mem (init demo_team empty_heap) 0))
       = ''[User]: write a function that calculates the product of a list\<newline>''
   \<and> Act (coder FindStringSubmatch_go (\<lambda>s. s) llm_ok) (mem (init demo_team empty_heap))
       = (code_msg, None, Add_at (mem (init demo_team empty_heap)) 0 code_msg,
          [(''SimpleWriteCode'',
            ''[User]: write a function that calculates the product of a list\<newline>'')])"
proof -
  define r where "r = coder FindStringSubmatch_go (\<lambda>s. s) llm_ok"
  define h where "h = mem (init demo_team empty_heap)"
  have g: "GetRecent (h (Memory r)) = [seed_msg]"
    by (simp add: r_def h_def demo_defs)
  have a: "Actions r = SimpleWriteCode FindStringSubmatch_go (\<lambda>s. s) llm_ok # []"
    by (simp add: r_def coder_def)
  have b: "Run (SimpleWriteCode FindStringSubmatch_go (\<lambda>s. s) llm_ok)
      (contextData_of (GetRecent (h (Memory r)))) = Inr ''ok''"
    by (simp add: SimpleWriteCode_def SimpleWriteCode_Run_def llm_ok_def parseCode_def
        FindStringSubmatch_go_def)
  have m: "Memory r = 0" "Profile r = ''SimpleCoder''"
    "Action.Name (SimpleWriteCode FindStringSubmatch_go (\<lambda>s. s) llm_ok) = ''SimpleWriteCode''"
    by (simp_all add: r_def coder_def SimpleWriteCode_def)
  from Act_success [where r = r and h = h, OF a b] g m show ?thesis
    unfolding r_def [symmetric] h_def [symmetric]
    by (simp add: code_msg_def seed_msg_def a)
qed

text \<open>Claim C5 at a role without capabilities and at a role whose capability fails.\<close>

theorem Act_error_witness:
  "Act (broken_tester\<lparr>Actions := []\<rparr>) empty_heap
     = (Message_zero, Some (errorString ''no suitable action found''), empty_heap, [])
   \<and> Act broken_tester empty_heap
     = (Message_zero,
        Some (wrapError ''SimpleWriteTest action failed: timeout'' (errorString ''timeout'')),
        empty_heap, [(''SimpleWriteTest'', '''')])"
proof -
  have "Act (broken_tester\<lparr>Actions := []\<rparr>) empty_heap
     = (Message_zero, Some (errorString ''no suitable action found''), empty_heap, [])"
    using Act_error [of "broken_tester\<lparr>Actions := []\<rparr>" empty_heap] by simp
  moreover have "Act broken_tester empty_heap
     = (Message_zero,
        Some (wrapError ''SimpleWriteTest action failed: timeout'' (errorString ''timeout'')),
        empty_heap, [(''SimpleWriteTest'', '''')])"
    using Act_error [of broken_tester empty_heap,
        THEN conjunct2, THEN conjunct1, rule_format,
        of "Action ''SimpleWriteTest'' (\<lambda>contextData. Inl (errorString ''timeout''))" "[]"
          "errorString ''timeout''"]
    by (simp add: broken_tester_def empty_heap_def GetRecent_def contextData_of_def)
  ultimately show ?thesis ..
qed

text \<open>Claim C6 on the team of \<^verbatim>\<open>main\<close>: after seeding, and in the state where the coder's result is delivered before the reviewer has read its Memory.\<close>

theorem seeding_before_dispatch_witness:
  "userReq demo_team = seed_msg
   \<and> tasks (init demo_team empty_heap) = [T_unspawned, T_unspawned, T_unspawned]
   \<and> GetRecent (mem (init demo_team empty_heap) 0) = [seed_msg]
   \<and> GetRecent (mem (init demo_team empty_heap) 1) = [seed_msg]
   \<and> GetRecent (mem (init demo_team empty_heap) 2) = [seed_msg]
   \<and> (\<exists>st. RunProject demo_team empty_heap early_delivery_schedule = Some st
         \<and> tasks st ! 2 = T_spawned
         \<and> userReq demo_team \<in> set (history (mem st (Memory (Roles demo_team ! 0))))
         \<and> GetRecent (mem st (Memory (Roles demo_team ! 2))) = [userReq demo_team])"
proof -
  note s = seeding_before_dispatch [of demo_team empty_heap]
  have r: "Roles demo_team ! 0 \<in> set (Roles demo_team)" "Roles demo_team ! 1 \<in> set (Roles demo_team)"
    "Roles demo_team ! 2 \<in> set (Roles demo_team)"
    by (simp_all add: demo_team_def main_team_def)
  have m: "Memory (Roles demo_team ! 0) = 1" "Memory (Roles demo_team ! 1) = 0"
    "Memory (Roles demo_team ! 2) = 2"
    by (simp_all add: demo_roles tester_def coder_def reviewer_def)
  have u: "userReq demo_team = seed_msg"
    by (simp add: userReq_def seed_msg_def demo_team_def main_team_def)
  from s r have "GetRecent (mem (init demo_team empty_heap) (Memory (Roles demo_team ! 0))) = [userReq demo_team]"
    "GetRecent (mem (init demo_team empty_heap) (Memory (Roles demo_team ! 1))) = [userReq demo_team]"
    "GetRecent (mem (init demo_team empty_heap) (Memory (Roles demo_team ! 2))) = [userReq demo_team]"
    by blast+
  with m u have g: "GetRecent (mem (init demo_team empty_heap) 0) = [seed_msg]"
    "GetRecent (mem (init demo_team empty_heap) 1) = [seed_msg]"
    "GetRecent (mem (init demo_team empty_heap) 2) = [seed_msg]"
    by simp_all
  have t: "tasks (init demo_team empty_heap) = [T_unspawned, T_unspawned, T_unspawned]"
    by (simp add: init_def demo_team_def main_team_def numeral_eq_Suc)
  from early_run obtain st where st:
    "RunProject demo_team empty_heap early_delivery_schedule = Some st"
    "tasks st = [T_spawned, T_deferred code_msg None, T_spawned]"
    by (rule observedD)
  from s st(1) have c: "(\<forall>r \<in> set (Roles demo_team).
           userReq demo_team \<in> set (history (mem st (Memory r)))
           \<and> GetRecent (mem st (Memory r)) \<noteq> [])"
    and e: "\<forall>i < length (Roles demo_team).
             distinct (map Memory (Roles demo_team))
             \<and> (tasks st ! i = T_unspawned \<or> tasks st ! i = T_spawned)
             \<and> (\<forall>j < length (Roles demo_team). \<forall>m.
                   tasks st ! j = T_deferred m None \<or> tasks st ! j = T_finished m None \<longrightarrow>
                   CauseBy m \<notin> set (WatchList (Roles demo_team ! i))) \<longrightarrow>
             GetRecent (mem st (Memory (Roles demo_team ! i))) = [userReq demo_team]"
    by blast+
  from c r(1) have c': "userReq demo_team \<in> set (history (mem st (Memory (Roles demo_team ! 0))))"
    by blast
  have "\<forall>j < length (Roles demo_team). \<forall>m.
                   tasks st ! j = T_deferred m None \<or> tasks st ! j = T_finished m None \<longrightarrow>
                   CauseBy m \<notin> set (WatchList (Roles demo_team ! 2))"
    using st(2) by (auto simp: demo_roles reviewer_def code_msg_def less_Suc_eq numeral_3_eq_3)
  with e [rule_format, of 2] demo_distinct st(2)
  have "GetRecent (mem st (Memory (Roles demo_team ! 2))) = [userReq demo_team]"
    by (simp add: demo_roles)
  with st c' have "\<exists>st. RunProject demo_team empty_heap early_delivery_schedule = Some st
         \<and> tasks st ! 2 = T_spawned
         \<and> userReq demo_team \<in> set (history (mem st (Memory (Roles demo_team ! 0))))
         \<and> GetRecent (mem st (Memory (Roles demo_team ! 2))) = [userReq demo_team]"
    by auto
  with u t g show ?thesis by blast
qed

text \<open>
  Claim C7 on a run in which the tester fails and the two other roles succeed: the two
  results are reported and delivered, and the tester's failure is that of its own
  capability.
\<close>

theorem failure_isolation_witness:
  "\<exists>st. RunProject failing_team empty_heap failing_schedule = Some st
     \<and> main st = M_returned
     \<and> tasks st =
         [T_finished Message_zero
            (Some (wrapError ''SimpleWriteTest action failed: timeout'' (errorString ''timeout''))),
          T_finished code_msg None, T_finished review_msg None]
     \<and> length (filter is_output (stdout st)) = 2
     \<and> length (filter succeeded (tasks st)) = 2
     \<and> Printed_output (Role code_msg) (Content code_msg) \<in> set (stdout st)
     \<and> count_list (WatchList (Roles failing_team ! 0)) (CauseBy code_msg)
         \<le> count_list (history (mem st (Memory (Roles failing_team ! 0)))) code_msg
     \<and> count_list (WatchList (Roles failing_team ! 0)) (CauseBy code_msg) = 1
     \<and> (\<exists>sched' st'. RunProject failing_team empty_heap (failing_schedule @ sched') = Some st'
           \<and> main st' = M_returned)
     \<and> (\<exists>k h0 h' calls.
           k \<le> length (history (mem st (Memory broken_tester)))
           \<and> h0 (Memory broken_tester) = \<lparr>history = take k (history (mem st (Memory broken_tester)))\<rparr>
           \<and> Act broken_tester h0 =
               (Message_zero,
                Some (wrapError ''SimpleWriteTest action failed: timeout'' (errorString ''timeout'')),
                h', calls))
     \<and> (\<exists>action rest c err.
           Actions broken_tester = action # rest \<and> Run action c = Inl err
           \<and> wrapError ''SimpleWriteTest action failed: timeout'' (errorString ''timeout'')
               = wrapError (Action.Name action @ '' action failed: '' @ Error err) err)"
proof -
  from failing_run obtain st where st:
    "RunProject failing_team empty_heap failing_schedule = Some st"
    "tasks st =
         [T_finished Message_zero
            (Some (wrapError ''SimpleWriteTest action failed: timeout'' (errorString ''timeout''))),
          T_finished code_msg None, T_finished review_msg None]"
    "main st = M_returned"
    "stdout st = [Printed_error ''SimpleTester''
              (wrapError ''SimpleWriteTest action failed: timeout'' (errorString ''timeout'')),
            Printed_output ''SimpleCoder'' ''ok'', Printed_output ''SimpleReviewer'' ''ok'']"
    by (rule observedD)
  have r: "length (Roles failing_team) = 3" "Roles failing_team ! 0 = broken_tester"
    "broken_tester \<in> set (Roles failing_team)"
    by (simp_all add: failing_team_def)
  note f = failure_isolation [OF st(1)]
  from f have p: "\<exists>sched' st'. RunProject failing_team empty_heap (failing_schedule @ sched') = Some st'
           \<and> main st' = M_returned"
    by (rule conjunct1)
  from f [THEN conjunct2, THEN conjunct2, THEN conjunct1] st(3)
  have q: "\<forall>i < length (Roles failing_team). \<forall>msg.
      tasks st ! i = T_finished msg None \<longrightarrow>
        Act_outcome (Roles failing_team ! i) msg None
        \<and> Printed_output (Role msg) (Content msg) \<in> set (stdout st)
        \<and> (\<forall>r \<in> set (Roles failing_team).
              count_list (WatchList r) (CauseBy msg)
                \<le> count_list (history (mem st (Memory r))) msg)"
    and n: "length (filter is_output (stdout st)) = length (filter succeeded (tasks st))"
    by blast+
  from q [rule_format, of 1 code_msg] st(2) r
  have d: "Printed_output (Role code_msg) (Content code_msg) \<in> set (stdout st)"
    "count_list (WatchList (Roles failing_team ! 0)) (CauseBy code_msg)
         \<le> count_list (history (mem st (Memory (Roles failing_team ! 0)))) code_msg"
    by auto
  have e: "length (filter succeeded (tasks st)) = 2"
    "count_list (WatchList (Roles failing_team ! 0)) (CauseBy code_msg) = 1"
    using st(2) by (simp_all add: r broken_tester_def code_msg_def)
  have ro: "result_of (tasks st ! 0) =
      Some (Message_zero,
        Some (wrapError ''SimpleWriteTest action failed: timeout'' (errorString ''timeout'')))"
    using st(2) by simp
  from f [THEN conjunct2, THEN conjunct2, THEN conjunct2, THEN conjunct1, rule_format, of 0,
      OF _ ro] r
  have g: "\<exists>k h0 h' calls.
           k \<le> length (history (mem st (Memory broken_tester)))
           \<and> h0 (Memory broken_tester) = \<lparr>history = take k (history (mem st (Memory broken_tester)))\<rparr>
           \<and> Act broken_tester h0 =
               (Message_zero,
                Some (wrapError ''SimpleWriteTest action failed: timeout'' (errorString ''timeout'')),
                h', calls)"
    by simp
  from f [THEN conjunct2, THEN conjunct2, THEN conjunct2, THEN conjunct2, THEN conjunct1,
      rule_format, of 0, OF _ ro] r
  have k: "\<exists>action rest c err.
           Actions broken_tester = action # rest \<and> Run action c = Inl err
           \<and> wrapError ''SimpleWriteTest action failed: timeout'' (errorString ''timeout'')
               = wrapError (Action.Name action @ '' action failed: '' @ Error err) err"
    by (simp add: broken_tester_def)
  from st(1,2,3) n d e p g k show ?thesis
    by (intro exI [of _ st] conjI) simp_all
qed

end
